theory Spec2Isabelle
  imports Complex_Main "HOL-Library.Word" "HOL-Library.AList"
begin

unbundle bit_operations_syntax

section \<open>Tree topology: links, nodes and edges\<close>

text \<open>
  A Tree owns three arrays of heap objects: \<^verbatim>\<open>links_\<close>, \<^verbatim>\<open>nodes_\<close> and \<^verbatim>\<open>edges_\<close>.
  Every cross reference of the source (\<^verbatim>\<open>next_\<close>, \<^verbatim>\<open>outer_\<close>, \<^verbatim>\<open>node_\<close>, \<^verbatim>\<open>edge_\<close>,
  \<^verbatim>\<open>link_\<close>, \<^verbatim>\<open>link_p_\<close>, \<^verbatim>\<open>link_s_\<close>) is a pointer to such an object. A pointer is modelled
  as the position of its target in the owning array; a position beyond the end of the array
  stands for a pointer to nothing the tree owns (null or dangling), and to dereference it is
  the error \<open>BadPointer\<close>. The field \<^verbatim>\<open>index_\<close> that every object stores is kept apart from
  the position: \<^verbatim>\<open>Validate\<close> compares the two. The fields carry the name of the source with the
  initial of their class in front (\<open>l_next\<close> is \<^verbatim>\<open>next_\<close> of a link).
\<close>

datatype error = BadPointer | AssertionFailed | OutOfRange | ReferenceInvalid | UndefinedBehaviour

record link =
  l_index :: nat
  l_next :: nat
  l_outer :: nat
  l_node :: nat
  l_edge :: nat

record node =
  n_index :: nat
  n_link :: nat
  n_name :: string

record 'd edge =
  e_index :: nat
  e_link_p :: nat
  e_link_s :: nat
  branch_length :: 'd
  edge_num :: int

record 'd tree =
  t_links :: "link list"
  t_nodes :: "node list"
  t_edges :: "'d edge list"

definition deref :: "'a list \<Rightarrow> nat \<Rightarrow> 'a option" where
  "deref xs p = (if p < length xs then Some (xs ! p) else None)"

subsection \<open>Validate\<close>

text \<open>
  The three loops \<^verbatim>\<open>for (i = 0; i < size; ++i) if (i != xs[i]->index_) return false\<close>:
  the position of the first element whose stored index is wrong, if there is one.
\<close>

fun wrong_index :: "('a \<Rightarrow> nat) \<Rightarrow> nat \<Rightarrow> 'a list \<Rightarrow> nat option" where
  "wrong_index idx i [] = None"
| "wrong_index idx i (x # xs) = (if i \<noteq> idx x then Some i else wrong_index idx (Suc i) xs)"

text \<open>One step \<^verbatim>\<open>link = link->next_->outer_\<close> of the round trip.\<close>

definition next_outer :: "'d tree \<Rightarrow> nat \<Rightarrow> nat option" where
  "next_outer t l =
     (case deref (t_links t) l of
        None \<Rightarrow> None
      | Some lk \<Rightarrow>
          (case deref (t_links t) (l_next lk) of
             None \<Rightarrow> None
           | Some nx \<Rightarrow> Some (l_outer nx)))"

text \<open>
  The loop \<^verbatim>\<open>do { link = link->next_->outer_; } while (link != links_.front());\<close>, as far
  as it has a meaning: \<open>Some (Inr ())\<close> when the walk is back at the first link. The walk may
  also never come back (\<open>None\<close>) or meet a pointer to nothing (\<open>Inl BadPointer\<close>).
\<close>

partial_function (option) roundtrip :: "'d tree \<Rightarrow> nat \<Rightarrow> (error + unit) option" where
  "roundtrip t l =
     (case next_outer t l of
        None \<Rightarrow> Some (Inl BadPointer)
      | Some l' \<Rightarrow> if l' \<noteq> 0 then roundtrip t l' else Some (Inr ()))"

text \<open>
  The loop of \<^verbatim>\<open>Validate\<close> writes nothing and its result is not read. A walk that never
  comes back to the first link, like one that meets a pointer to nothing, is therefore
  undefined behaviour: the language gives the call no result there, and a build may return
  true, return false or not return. These runs are the value \<open>Inl UndefinedBehaviour\<close>, about
  which nothing is stated. The messages that \<^verbatim>\<open>Validate\<close> logs are not part of the model.
\<close>

definition Validate :: "'d tree \<Rightarrow> (error + bool) option" where
  "Validate t =
     (if t_links t = [] \<or> t_nodes t = [] \<or> t_edges t = []
      then Some (Inr (t_links t = [] \<and> t_nodes t = [] \<and> t_edges t = []))
      else if l_node (hd (t_links t)) \<noteq> 0 then Some (Inr False)
      else if wrong_index l_index 0 (t_links t) \<noteq> None then Some (Inr False)
      else if wrong_index n_index 0 (t_nodes t) \<noteq> None then Some (Inr False)
      else if wrong_index e_index 0 (t_edges t) \<noteq> None then Some (Inr False)
      else (case roundtrip t 0 of
              None \<Rightarrow> Some (Inl UndefinedBehaviour)
            | Some (Inl e) \<Rightarrow> Some (Inl UndefinedBehaviour)
            | Some (Inr u) \<Rightarrow> Some (Inr True)))"

declare roundtrip.simps [code]

subsection \<open>The invariants of the data model\<close>

text \<open>
  The invariants are written after the words of the specification, to be compared with what
  \<open>Validate\<close> checks. \<open>walk t k l\<close> is the link reached from \<open>l\<close> after \<open>k\<close> steps
  \<^verbatim>\<open>next\<close>\<open>\<rightarrow>\<close>\<^verbatim>\<open>outer\<close>.
\<close>

fun walk :: "'d tree \<Rightarrow> nat \<Rightarrow> nat \<Rightarrow> nat option" where
  "walk t 0 l = Some l"
| "walk t (Suc k) l = (case next_outer t l of None \<Rightarrow> None | Some l' \<Rightarrow> walk t k l')"

text \<open>The i-th element of each array has stored index i.\<close>

definition stored_indices_ok :: "'d tree \<Rightarrow> bool" where
  "stored_indices_ok t \<longleftrightarrow>
     (\<forall>i < length (t_links t). l_index (t_links t ! i) = i) \<and>
     (\<forall>i < length (t_nodes t). n_index (t_nodes t ! i) = i) \<and>
     (\<forall>i < length (t_edges t). e_index (t_edges t ! i) = i)"

text \<open>
  Euler-tour closure: the walk from the first link passes through every link exactly once
  and is then back at the first link.
\<close>

definition euler_tour_closure :: "'d tree \<Rightarrow> bool" where
  "euler_tour_closure t \<longleftrightarrow>
     (let n = length (t_links t); visited = map (\<lambda>k. walk t k 0) [0..<n]
      in distinct visited \<and> set visited = set (map Some [0..<n]) \<and> walk t n 0 = Some 0)"

text \<open>Every Edge's two links resolve to different Nodes.\<close>

definition edges_join_different_nodes :: "'d tree \<Rightarrow> bool" where
  "edges_join_different_nodes t \<longleftrightarrow>
     list_all
       (\<lambda>e. case (deref (t_links t) (e_link_p e), deref (t_links t) (e_link_s e)) of
              (Some p, Some s) \<Rightarrow> l_node p \<noteq> l_node s
            | _ \<Rightarrow> False)
       (t_edges t)"

subsection \<open>Example trees\<close>

text \<open>
  The tree \<^verbatim>\<open>(A,B,C)R;\<close>: a root with three leaves. The root owns the links 0, 1 and 2,
  the leaves the links 3, 4 and 5; edge \<open>i\<close> joins link \<open>i\<close> to link \<open>i + 3\<close>.
\<close>

definition star_tree :: "'d \<Rightarrow> 'd \<Rightarrow> 'd \<Rightarrow> 'd tree" where
  "star_tree a b c =
     \<lparr>t_links =
        [\<lparr>l_index = 0, l_next = 1, l_outer = 3, l_node = 0, l_edge = 0\<rparr>,
         \<lparr>l_index = 1, l_next = 2, l_outer = 4, l_node = 0, l_edge = 1\<rparr>,
         \<lparr>l_index = 2, l_next = 0, l_outer = 5, l_node = 0, l_edge = 2\<rparr>,
         \<lparr>l_index = 3, l_next = 3, l_outer = 0, l_node = 1, l_edge = 0\<rparr>,
         \<lparr>l_index = 4, l_next = 4, l_outer = 1, l_node = 2, l_edge = 1\<rparr>,
         \<lparr>l_index = 5, l_next = 5, l_outer = 2, l_node = 3, l_edge = 2\<rparr>],
      t_nodes =
        [\<lparr>n_index = 0, n_link = 0, n_name = ''R''\<rparr>,
         \<lparr>n_index = 1, n_link = 3, n_name = ''A''\<rparr>,
         \<lparr>n_index = 2, n_link = 4, n_name = ''B''\<rparr>,
         \<lparr>n_index = 3, n_link = 5, n_name = ''C''\<rparr>],
      t_edges =
        [\<lparr>e_index = 0, e_link_p = 0, e_link_s = 3, branch_length = a, edge_num = 0\<rparr>,
         \<lparr>e_index = 1, e_link_p = 1, e_link_s = 4, branch_length = b, edge_num = 1\<rparr>,
         \<lparr>e_index = 2, e_link_p = 2, e_link_s = 5, branch_length = c, edge_num = 2\<rparr>]\<rparr>"

text \<open>
  A structure that is no tree: the links 0 and 1 close a round trip of their own and both
  belong to node 0, and the links 2 and 3 are never reached from the first link.
\<close>

definition split_tree :: "int tree" where
  "split_tree =
     \<lparr>t_links =
        [\<lparr>l_index = 0, l_next = 0, l_outer = 1, l_node = 0, l_edge = 0\<rparr>,
         \<lparr>l_index = 1, l_next = 1, l_outer = 0, l_node = 0, l_edge = 0\<rparr>,
         \<lparr>l_index = 2, l_next = 2, l_outer = 3, l_node = 1, l_edge = 1\<rparr>,
         \<lparr>l_index = 3, l_next = 3, l_outer = 2, l_node = 1, l_edge = 1\<rparr>],
      t_nodes =
        [\<lparr>n_index = 0, n_link = 0, n_name = ''R''\<rparr>,
         \<lparr>n_index = 1, n_link = 2, n_name = ''A''\<rparr>],
      t_edges =
        [\<lparr>e_index = 0, e_link_p = 0, e_link_s = 1, branch_length = 1, edge_num = 0\<rparr>,
         \<lparr>e_index = 1, e_link_p = 2, e_link_s = 3, branch_length = 1, edge_num = 1\<rparr>]\<rparr>"

text \<open>The tree \<^verbatim>\<open>(A,B,C)R;\<close> with its first link moved to the node \<^verbatim>\<open>A\<close>.\<close>

definition misrooted_tree :: "int tree" where
  "misrooted_tree =
     (star_tree 2 3 5)\<lparr>t_links :=
        (t_links (star_tree 2 3 5 :: int tree))
          [0 := \<lparr>l_index = 0, l_next = 1, l_outer = 3, l_node = 1, l_edge = 0\<rparr>]\<rparr>"

text \<open>Trees for the checks on the arrays: no array, one array missing, a wrong stored index.\<close>

definition empty_tree :: "int tree" where
  "empty_tree = \<lparr>t_links = [], t_nodes = [], t_edges = []\<rparr>"

definition edgeless_tree :: "int tree" where
  "edgeless_tree = (star_tree 2 3 5)\<lparr>t_edges := []\<rparr>"

definition misnumbered_tree :: "int tree" where
  "misnumbered_tree =
     (star_tree 2 3 5)\<lparr>t_nodes :=
        [\<lparr>n_index = 0, n_link = 0, n_name = ''R''\<rparr>,
         \<lparr>n_index = 1, n_link = 3, n_name = ''A''\<rparr>,
         \<lparr>n_index = 3, n_link = 4, n_name = ''B''\<rparr>,
         \<lparr>n_index = 2, n_link = 5, n_name = ''C''\<rparr>]\<rparr>"

section \<open>Bitvector\<close>

text \<open>
  A Bitvector holds its number of bits \<^verbatim>\<open>size_\<close> and the words \<^verbatim>\<open>data_\<close> of type
  \<^verbatim>\<open>uint64_t\<close>. The table \<^verbatim>\<open>bit_mask_[IntSize]\<close> is only declared in the header, so the
  accessors take it as the argument \<open>bit_mask\<close>. A read or write of \<^verbatim>\<open>data_\<close> or of the
  table beyond its end is the error \<open>OutOfRange\<close>.
\<close>

definition IntSize :: nat where
  "IntSize = 64"

record Bitvector =
  bv_size :: nat
  bv_data :: "64 word list"

text \<open>The number of words that the constructor reserves for \<open>sz\<close> bits.\<close>

definition reserved_words :: "nat \<Rightarrow> nat" where
  "reserved_words sz = sz div IntSize + (if sz mod IntSize = 0 then 0 else 1)"

definition allocated :: "Bitvector \<Rightarrow> bool" where
  "allocated b \<longleftrightarrow> length (bv_data b) = reserved_words (bv_size b)"

definition Bitvector_get :: "64 word list \<Rightarrow> Bitvector \<Rightarrow> nat \<Rightarrow> error + bool" where
  "Bitvector_get bit_mask b index =
     (if index \<ge> bv_size b then Inr False
      else (case (deref (bv_data b) (index div IntSize), deref bit_mask (index mod IntSize)) of
              (Some w, Some m) \<Rightarrow> Inr (w AND m \<noteq> 0)
            | _ \<Rightarrow> Inl OutOfRange))"

definition Bitvector_set :: "64 word list \<Rightarrow> Bitvector \<Rightarrow> nat \<Rightarrow> error + Bitvector" where
  "Bitvector_set bit_mask b index =
     (if index \<ge> bv_size b then Inr b
      else (case (deref (bv_data b) (index div IntSize), deref bit_mask (index mod IntSize)) of
              (Some w, Some m) \<Rightarrow> Inr (b\<lparr>bv_data := (bv_data b)[index div IntSize := w OR m]\<rparr>)
            | _ \<Rightarrow> Inl OutOfRange))"

text \<open>A vector of 70 bits in two words, and a mask table with bit \<open>k\<close> set in entry \<open>k\<close>.\<close>

definition seventy_bits :: Bitvector where
  "seventy_bits = \<lparr>bv_size = 70, bv_data = [5, 32]\<rparr>"

definition single_bit_masks :: "64 word list" where
  "single_bit_masks = map (\<lambda>k. push_bit k 1) [0..<64]"

section \<open>Samples and the jplace writer\<close>

text \<open>
  A Sample (the class \<^verbatim>\<open>Placements\<close> of \<^verbatim>\<open>placements.hpp\<close>) owns a tree, its pqueries and a
  metadata map. A placement refers to its edge: the reference is the position of the edge in
  \<^verbatim>\<open>edges_\<close> of the tree of the Sample, and its \<^verbatim>\<open>edge_num\<close> is read from that edge. The
  back pointers from a placement or a name to its pquery are not kept: a pquery contains its
  placements and names. Values of type \<^verbatim>\<open>double\<close> are of a type \<open>'d\<close> of which only the
  operations that the source applies are used: the subtraction, and the comparison
  \<^verbatim>\<open>x != 0.0\<close>, which is \<open>x \<noteq> 0\<close>.
\<close>

record 'd PqueryPlacement =
  pl_edge :: nat
  likelihood :: 'd
  like_weight_ratio :: 'd
  proximal_length :: 'd
  pendant_length :: 'd
  parsimony :: int

record 'd PqueryName =
  pn_name :: string
  multiplicity :: 'd

record 'd Pquery =
  pq_placements :: "'d PqueryPlacement list"
  pq_names :: "'d PqueryName list"

record 'd Sample =
  s_tree :: "'d tree"
  s_pqueries :: "'d Pquery list"
  s_metadata :: "(string \<times> string) list"

text \<open>Every placement of the Sample refers to an edge of the tree of the Sample.\<close>

definition pquery_edges_ok :: "'d tree \<Rightarrow> 'd Pquery \<Rightarrow> bool" where
  "pquery_edges_ok t pq \<longleftrightarrow> list_all (\<lambda>pl. pl_edge pl < length (t_edges t)) (pq_placements pq)"

definition sample_edges_ok :: "'d Sample \<Rightarrow> bool" where
  "sample_edges_ok smp \<longleftrightarrow> list_all (pquery_edges_ok (s_tree smp)) (s_pqueries smp)"

subsection \<open>Json values\<close>

datatype 'd JsonValue =
    JsonValueString string
  | JsonValueNumber 'd
  | JsonValueArray "'d JsonValue list"
  | JsonValueObject "(string \<times> 'd JsonValue) list"

type_synonym 'd JsonDocument = "(string \<times> 'd JsonValue) list"

text \<open>
  Modelled from the spec: \<^verbatim>\<open>JsonValueObject::set\<close> is called by the writer and its body is not
  among the sources. A jplace document is a JSON object with the keys \<^verbatim>\<open>tree\<close>,
  \<^verbatim>\<open>placements\<close>, \<^verbatim>\<open>fields\<close>, \<^verbatim>\<open>version\<close> and \<^verbatim>\<open>metadata\<close>: an object maps keys to values,
  and \<^verbatim>\<open>set\<close> gives a key its value.
\<close>

definition JsonValueObject_set ::
    "string \<Rightarrow> 'd JsonValue \<Rightarrow> 'd JsonDocument \<Rightarrow> 'd JsonDocument" where
  "JsonValueObject_set key v obj = AList.update key v obj"

text \<open>Reading a document: the value of a key of an object, the entry of an array.\<close>

fun member_of :: "string \<Rightarrow> 'd JsonValue \<Rightarrow> 'd JsonValue option" where
  "member_of key (JsonValueObject obj) = map_of obj key"
| "member_of key _ = None"

fun entry_of :: "nat \<Rightarrow> 'd JsonValue \<Rightarrow> 'd JsonValue option" where
  "entry_of i (JsonValueArray vs) = deref vs i"
| "entry_of i _ = None"

subsection \<open>The collaborators of the writer\<close>

text \<open>
  The writer calls functions whose bodies are in other files: the conversion of an \<^verbatim>\<open>int\<close> to
  the \<^verbatim>\<open>double\<close> of a \<^verbatim>\<open>JsonValueNumber\<close>, the Newick processor, the command line of
  \<^verbatim>\<open>utils::Options\<close>, \<^verbatim>\<open>JsonProcessor::to_string\<close>, and \<^verbatim>\<open>utils::file_exists\<close> and
  \<^verbatim>\<open>utils::file_write\<close> on a file system of type \<open>'fs\<close>. They are the fields of an
  environment that the writer takes as argument.
\<close>

record ('d, 'fs) env =
  int_to_double :: "int \<Rightarrow> 'd"
  newick_to_string :: "'d tree \<Rightarrow> string"
  command_line_string :: string
  json_to_string :: "'d JsonDocument \<Rightarrow> string"
  file_exists :: "'fs \<Rightarrow> string \<Rightarrow> bool"
  file_write :: "string \<Rightarrow> string \<Rightarrow> 'fs \<Rightarrow> bool \<times> 'fs"

subsection \<open>to\_document\<close>

text \<open>A loop that fills an array and stops at the first error.\<close>

fun collect :: "('a \<Rightarrow> error + 'b) \<Rightarrow> 'a list \<Rightarrow> error + 'b list" where
  "collect f [] = Inr []"
| "collect f (x # xs) =
     (case f x of
        Inl e \<Rightarrow> Inl e
      | Inr y \<Rightarrow> (case collect f xs of Inl e \<Rightarrow> Inl e | Inr ys \<Rightarrow> Inr (y # ys)))"

text \<open>The array \<^verbatim>\<open>pqry_fields\<close> of one placement.\<close>

definition pqry_fields ::
    "('d::{minus,zero}, 'fs) env \<Rightarrow> 'd tree \<Rightarrow> 'd PqueryPlacement \<Rightarrow> error + 'd JsonValue" where
  "pqry_fields ev t pqry_place =
     (case deref (t_edges t) (pl_edge pqry_place) of
        None \<Rightarrow> Inl BadPointer
      | Some e \<Rightarrow>
          Inr (JsonValueArray
            [JsonValueNumber (int_to_double ev (edge_num e)),
             JsonValueNumber (likelihood pqry_place),
             JsonValueNumber (like_weight_ratio pqry_place),
             JsonValueNumber (branch_length e - proximal_length pqry_place),
             JsonValueNumber (pendant_length pqry_place)]))"

text \<open>The loop \<^verbatim>\<open>has_nm |= pqry_name.multiplicity != 0.0\<close> over the names of a pquery.\<close>

definition has_nm :: "('d::{minus,zero}) PqueryName list \<Rightarrow> bool" where
  "has_nm names = fold (\<lambda>pqry_name acc. acc \<or> multiplicity pqry_name \<noteq> 0) names False"

definition pqry_nm_arr :: "('d::{minus,zero}) PqueryName list \<Rightarrow> 'd JsonValue" where
  "pqry_nm_arr names =
     JsonValueArray
       (map (\<lambda>pqry_name.
               JsonValueArray
                 [JsonValueString (pn_name pqry_name), JsonValueNumber (multiplicity pqry_name)])
          names)"

definition pqry_n_arr :: "('d::{minus,zero}) PqueryName list \<Rightarrow> 'd JsonValue" where
  "pqry_n_arr names = JsonValueArray (map (\<lambda>pqry_name. JsonValueString (pn_name pqry_name)) names)"

text \<open>The object \<^verbatim>\<open>jpqry\<close> of one pquery: the body of the loop over the pqueries.\<close>

definition jpqry :: "('d::{minus,zero}, 'fs) env \<Rightarrow> 'd tree \<Rightarrow> 'd Pquery \<Rightarrow> error + 'd JsonValue" where
  "jpqry ev t pqry =
     (case collect (pqry_fields ev t) (pq_placements pqry) of
        Inl e \<Rightarrow> Inl e
      | Inr pqry_p_arr \<Rightarrow>
          Inr (JsonValueObject
            (let obj = JsonValueObject_set ''p'' (JsonValueArray pqry_p_arr) []
             in if has_nm (pq_names pqry)
                then JsonValueObject_set ''nm'' (pqry_nm_arr (pq_names pqry)) obj
                else JsonValueObject_set ''n'' (pqry_n_arr (pq_names pqry)) obj)))"

definition jfields :: "('d::{minus,zero}) JsonValue" where
  "jfields =
     JsonValueArray
       [JsonValueString ''edge_num'', JsonValueString ''likelihood'',
        JsonValueString ''like_weight_ratio'', JsonValueString ''distal_length'',
        JsonValueString ''pendant_length'']"

definition to_document :: "('d::{minus,zero}, 'fs) env \<Rightarrow> 'd Sample \<Rightarrow> error + 'd JsonDocument" where
  "to_document ev smp =
     (let doc = JsonValueObject_set ''tree''
                  (JsonValueString (newick_to_string ev (s_tree smp))) []
      in case collect (jpqry ev (s_tree smp)) (s_pqueries smp) of
           Inl e \<Rightarrow> Inl e
         | Inr placements_arr \<Rightarrow>
             Inr (JsonValueObject_set ''metadata''
                    (JsonValueObject
                       (JsonValueObject_set ''invocation''
                          (JsonValueString (command_line_string ev)) []))
                 (JsonValueObject_set ''version'' (JsonValueNumber (int_to_double ev 3))
                 (JsonValueObject_set ''fields'' jfields
                 (JsonValueObject_set ''placements'' (JsonValueArray placements_arr) doc)))))"

subsection \<open>to\_string and to\_file\<close>

definition to_string :: "('d::{minus,zero}, 'fs) env \<Rightarrow> 'd Sample \<Rightarrow> error + string" where
  "to_string ev smp =
     (case to_document ev smp of
        Inl e \<Rightarrow> Inl e
      | Inr json \<Rightarrow> Inr (json_to_string ev json))"

text \<open>
  \<^verbatim>\<open>to_file\<close> returns its boolean together with the file system it leaves. The warning
  that it logs is not part of the model.
\<close>

definition to_file ::
    "('d::{minus,zero}, 'fs) env \<Rightarrow> 'fs \<Rightarrow> 'd Sample \<Rightarrow> string \<Rightarrow> error + bool \<times> 'fs" where
  "to_file ev fs smp filename =
     (if file_exists ev fs filename then Inr (False, fs)
      else (case to_string ev smp of
              Inl e \<Rightarrow> Inl e
            | Inr ts \<Rightarrow> Inr (file_write ev filename ts fs)))"

subsection \<open>An example Sample and environment\<close>

text \<open>
  Two pqueries on the tree \<^verbatim>\<open>(A,B,C)R;\<close> with branch lengths 2, 3 and 5: the first has two
  placements and a name with multiplicity 2, the second one placement and a name without
  multiplicity. The file system of the example maps file names to contents.
\<close>

definition example_sample :: "int Sample" where
  "example_sample =
     \<lparr>s_tree = star_tree 2 3 5,
      s_pqueries =
        [\<lparr>pq_placements =
            [\<lparr>pl_edge = 0, likelihood = - 10, like_weight_ratio = 1, proximal_length = 1,
              pendant_length = 4, parsimony = 0\<rparr>,
             \<lparr>pl_edge = 2, likelihood = - 12, like_weight_ratio = 0, proximal_length = 2,
              pendant_length = 6, parsimony = 0\<rparr>],
          pq_names = [\<lparr>pn_name = ''q1'', multiplicity = 2\<rparr>]\<rparr>,
         \<lparr>pq_placements =
            [\<lparr>pl_edge = 1, likelihood = - 11, like_weight_ratio = 1, proximal_length = 3,
              pendant_length = 7, parsimony = 0\<rparr>],
          pq_names = [\<lparr>pn_name = ''q2'', multiplicity = 0\<rparr>]\<rparr>],
      s_metadata = []\<rparr>"

definition example_env :: "(int, (string \<times> string) list) env" where
  "example_env =
     \<lparr>int_to_double = (\<lambda>i. i),
      newick_to_string = (\<lambda>t. ''(A,B,C)R;''),
      command_line_string = ''extract'',
      json_to_string = (\<lambda>doc. concat (map fst doc)),
      file_exists = (\<lambda>fs filename. map_of fs filename \<noteq> None),
      file_write = (\<lambda>filename ts fs. (True, AList.update filename ts fs))\<rparr>"

text \<open>
  Reading the document of a Sample: the object of pquery \<open>i\<close> in the array \<^verbatim>\<open>placements\<close>,
  and entry \<open>k\<close> of the tuple of its placement \<open>j\<close> in the array \<^verbatim>\<open>p\<close>.
\<close>

definition pquery_object :: "'d JsonDocument \<Rightarrow> nat \<Rightarrow> 'd JsonValue option" where
  "pquery_object doc i = Option.bind (map_of doc ''placements'') (entry_of i)"

definition p_tuple_entry :: "'d JsonDocument \<Rightarrow> nat \<Rightarrow> nat \<Rightarrow> nat \<Rightarrow> 'd JsonValue option" where
  "p_tuple_entry doc i j k =
     Option.bind (Option.bind (Option.bind (pquery_object doc i) (member_of ''p'')) (entry_of j))
       (entry_of k)"

section \<open>Levelorder traversal, NodeDepthVector and NodeDistanceMatrix\<close>

subsection \<open>The levelorder iterator\<close>

text \<open>
  Modelled from the spec: the class \<^verbatim>\<open>IteratorLevelorder\<close> and \<^verbatim>\<open>Tree::BeginLevelorder\<close> are
  used by \<^verbatim>\<open>NodeDepthVector\<close> and \<^verbatim>\<open>NodeDistanceMatrix\<close> and defined in a file that is not
  among the sources. The specification has a levelorder traversal produce a finite sequence of
  (Link, Node, Edge) triples rooted at a node, with every node visited once, where the Node and
  the Edge are those of the Link and the link \<^verbatim>\<open>Outer()\<close> of the Link of a visited node
  belongs to the node from which it was reached. The traversal below keeps a queue of links:
  it starts with the given link, and for every link that it visits it appends the outer links
  of the other links of the same node. \<open>BeginLevelorder\<close> is the sequence of the links
  visited; it is \<open>None\<close> when the traversal never ends. \<^verbatim>\<open>IsFirstIteration()\<close> holds at the
  link with which the traversal started.
\<close>

text \<open>
  Modelled from the spec: the outer links of the links that follow \<open>c\<close> around its node, up
  to the link \<open>link\<close>, appended to the queue.
\<close>

partial_function (option) push_back_children ::
    "'d tree \<Rightarrow> nat \<Rightarrow> nat \<Rightarrow> nat list \<Rightarrow> (error + nat list) option" where
  "push_back_children t link c queue =
     (if c = link then Some (Inr queue)
      else (case deref (t_links t) c of
              None \<Rightarrow> Some (Inl BadPointer)
            | Some lk \<Rightarrow> push_back_children t link (l_next lk) (queue @ [l_outer lk])))"

text \<open>
  Modelled from the spec: the step of the levelorder iterator. It takes the first link of the
  queue, appends the outer links of the other links of its node, and goes on with the queue.
\<close>

partial_function (option) levelorder_visit ::
    "'d tree \<Rightarrow> nat list \<Rightarrow> nat list \<Rightarrow> (error + nat list) option" where
  "levelorder_visit t queue visited =
     (case queue of
        [] \<Rightarrow> Some (Inr visited)
      | link # rest \<Rightarrow>
          (case deref (t_links t) link of
             None \<Rightarrow> Some (Inl BadPointer)
           | Some lk \<Rightarrow>
               Option.bind (push_back_children t link (l_next lk) rest)
                 (\<lambda>r. case r of
                        Inl e \<Rightarrow> Some (Inl e)
                      | Inr queue' \<Rightarrow> levelorder_visit t queue' (visited @ [link]))))"

text \<open>
  Modelled from the spec: the levelorder traversal that starts at the link \<open>start\<close>. The
  queue begins with the outer link of \<open>start\<close> and the outer links of the other links of its
  node.
\<close>

definition BeginLevelorder :: "'d tree \<Rightarrow> nat \<Rightarrow> (error + nat list) option" where
  "BeginLevelorder t start =
     (case deref (t_links t) start of
        None \<Rightarrow> Some (Inl BadPointer)
      | Some lk \<Rightarrow>
          Option.bind (push_back_children t start (l_next lk) [l_outer lk])
            (\<lambda>r. case r of
                   Inl e \<Rightarrow> Some (Inl e)
                 | Inr queue \<Rightarrow> levelorder_visit t queue [start]))"

declare push_back_children.simps [code]
declare levelorder_visit.simps [code]

text \<open>
  What the loops read from the iterator at a link: \<^verbatim>\<open>it.Node()->Index()\<close>,
  \<^verbatim>\<open>it.Link()->Outer()->Node()->Index()\<close> and the branch length of \<^verbatim>\<open>it.Edge()\<close>, where
  the node and the edge of the iterator are those of its link.
\<close>

definition node_index_at :: "'d tree \<Rightarrow> nat \<Rightarrow> nat option" where
  "node_index_at t l =
     Option.bind (deref (t_links t) l)
       (\<lambda>lk. map_option n_index (deref (t_nodes t) (l_node lk)))"

definition outer_node_index_at :: "'d tree \<Rightarrow> nat \<Rightarrow> nat option" where
  "outer_node_index_at t l =
     Option.bind (deref (t_links t) l) (\<lambda>lk. node_index_at t (l_outer lk))"

definition branch_length_at :: "'d tree \<Rightarrow> nat \<Rightarrow> 'd option" where
  "branch_length_at t l =
     Option.bind (deref (t_links t) l)
       (\<lambda>lk. map_option branch_length (deref (t_edges t) (l_edge lk)))"

text \<open>The edge of a link, as a position in \<^verbatim>\<open>edges_\<close>.\<close>

definition edge_at :: "'d tree \<Rightarrow> nat \<Rightarrow> nat option" where
  "edge_at t l = map_option l_edge (deref (t_links t) l)"

text \<open>Every link of the list resolves to its edge, its node and the node of its outer link.\<close>

definition links_resolve :: "'d tree \<Rightarrow> nat list \<Rightarrow> bool" where
  "links_resolve t ls \<longleftrightarrow>
     list_all (\<lambda>l. edge_at t l \<noteq> None \<and> node_index_at t l \<noteq> None \<and>
                   outer_node_index_at t l \<noteq> None \<and> branch_length_at t l \<noteq> None) ls"

text \<open>A loop whose body may fail: it stops at the first error.\<close>

fun for_each :: "('a \<Rightarrow> 's \<Rightarrow> error + 's) \<Rightarrow> 'a list \<Rightarrow> 's \<Rightarrow> error + 's" where
  "for_each body [] s = Inr s"
| "for_each body (x # xs) s =
     (case body x s of Inl e \<Rightarrow> Inl e | Inr s' \<Rightarrow> for_each body xs s')"

subsection \<open>NodeDepthVector\<close>

text \<open>
  Modelled from the spec: \<^verbatim>\<open>RootNode()\<close> is not among the sources; the default root of a
  traversal is the node of the designated root link of the tree, its first link.
\<close>

definition RootNode :: "'d tree \<Rightarrow> nat option" where
  "RootNode t = (case t_links t of [] \<Rightarrow> None | l # ls \<Rightarrow> Some (l_node l))"

text \<open>
  The body of the loop of \<^verbatim>\<open>NodeDepthVector\<close> at the link \<open>l\<close> of a traversal that started at
  the link \<open>start\<close>. The flag \<open>asserts\<close> tells whether \<^verbatim>\<open>assert\<close> is compiled in.
\<close>

definition depth_step :: "bool \<Rightarrow> 'd tree \<Rightarrow> nat \<Rightarrow> nat \<Rightarrow> int list \<Rightarrow> error + int list" where
  "depth_step asserts t start l vec =
     (if l = start then Inr vec
      else (case (node_index_at t l, outer_node_index_at t l) of
              (Some i, Some p) \<Rightarrow>
                if i < length vec \<and> p < length vec
                then if asserts \<and> vec ! i \<noteq> - 1 then Inl AssertionFailed
                     else Inr (vec[i := 1 + vec ! p])
                else Inl OutOfRange
            | _ \<Rightarrow> Inl BadPointer))"

text \<open>
  The argument \<open>node\<close> is \<open>None\<close> for the null pointer. The traversal does not depend on the
  vector, so the links are taken from the iterator first and the body is then run over them.
  The depths are of type \<^verbatim>\<open>int\<close> and far from its bounds; they are integers here.
\<close>

definition NodeDepthVector :: "bool \<Rightarrow> 'd tree \<Rightarrow> nat option \<Rightarrow> (error + int list) option" where
  "NodeDepthVector asserts t node =
     (case (case node of None \<Rightarrow> RootNode t | Some n \<Rightarrow> Some n) of
        None \<Rightarrow> Some (Inl BadPointer)
      | Some n \<Rightarrow>
          if t_nodes t = [] then Some (Inl OutOfRange)
          else
            (let vec = (replicate (length (t_nodes t)) (- 1))[0 := 0]
             in case deref (t_nodes t) n of
                  None \<Rightarrow> Some (Inl BadPointer)
                | Some nd \<Rightarrow>
                    (case BeginLevelorder t (n_link nd) of
                       None \<Rightarrow> None
                     | Some (Inl e) \<Rightarrow> Some (Inl e)
                     | Some (Inr its) \<Rightarrow>
                         Some (for_each (depth_step asserts t (n_link nd)) its vec))))"

text \<open>
  The number of edges between two nodes of the tree \<^verbatim>\<open>(A,B,C)R;\<close>: every leaf is one edge
  away from the root and two edges away from another leaf.
\<close>

definition star_tree_edges_between :: "nat \<Rightarrow> nat \<Rightarrow> int" where
  "star_tree_edges_between v u = (if v = u then 0 else if v = 0 \<or> u = 0 then 1 else 2)"

subsection \<open>NodeDistanceMatrix\<close>

text \<open>
  Modelled from the spec: the class \<^verbatim>\<open>Matrix\<close> is not among the sources. The specification
  has \<^verbatim>\<open>NodeDistanceMatrix\<close> return an all-pairs matrix; a matrix is the list of its rows here.
  A new matrix is taken to hold 0 everywhere, and no property below depends on it, since every
  entry that is read has been written. An entry outside the matrix is the error \<open>OutOfRange\<close>.
\<close>

definition Matrix_new :: "nat \<Rightarrow> nat \<Rightarrow> ('d::{plus,zero}) list list" where
  "Matrix_new rows cols = replicate rows (replicate cols 0)"

text \<open>Modelled from the spec: reading and writing the entry of a row and a column.\<close>

definition mat_get :: "'d list list \<Rightarrow> nat \<Rightarrow> nat \<Rightarrow> 'd option" where
  "mat_get mat r c = Option.bind (deref mat r) (\<lambda>row. deref row c)"

definition mat_set :: "'d list list \<Rightarrow> nat \<Rightarrow> nat \<Rightarrow> 'd \<Rightarrow> 'd list list option" where
  "mat_set mat r c x =
     (if r < length mat \<and> c < length (mat ! r) then Some (mat[r := (mat ! r)[c := x]]) else None)"

text \<open>The body of the inner loop at the link \<open>l\<close> of the traversal for the row \<open>row\<close>.\<close>

definition distance_step ::
    "('d::{plus,zero}) tree \<Rightarrow> nat \<Rightarrow> nat \<Rightarrow> nat \<Rightarrow> 'd list list \<Rightarrow> error + 'd list list" where
  "distance_step t row start l mat =
     (if l = start then Inr mat
      else (case (node_index_at t l, outer_node_index_at t l, branch_length_at t l) of
              (Some i, Some p, Some len) \<Rightarrow>
                (case mat_get mat row p of
                   None \<Rightarrow> Inl OutOfRange
                 | Some d \<Rightarrow>
                     (case mat_set mat row i (len + d) of
                        None \<Rightarrow> Inl OutOfRange
                      | Some mat' \<Rightarrow> Inr mat'))
            | _ \<Rightarrow> Inl BadPointer))"

text \<open>The body of the outer loop for one row node.\<close>

definition distance_row ::
    "('d::{plus,zero}) tree \<Rightarrow> node \<Rightarrow> 'd list list \<Rightarrow> (error + 'd list list) option" where
  "distance_row t row_node mat =
     (case mat_set mat (n_index row_node) (n_index row_node) 0 of
        None \<Rightarrow> Some (Inl OutOfRange)
      | Some mat' \<Rightarrow>
          (case BeginLevelorder t (n_link row_node) of
             None \<Rightarrow> None
           | Some (Inl e) \<Rightarrow> Some (Inl e)
           | Some (Inr its) \<Rightarrow>
               Some (for_each (distance_step t (n_index row_node) (n_link row_node)) its mat')))"

fun distance_rows ::
    "('d::{plus,zero}) tree \<Rightarrow> node list \<Rightarrow> 'd list list \<Rightarrow> (error + 'd list list) option" where
  "distance_rows t [] mat = Some (Inr mat)"
| "distance_rows t (row_node # rest) mat =
     (case distance_row t row_node mat of
        None \<Rightarrow> None
      | Some (Inl e) \<Rightarrow> Some (Inl e)
      | Some (Inr mat') \<Rightarrow> distance_rows t rest mat')"

definition NodeDistanceMatrix :: "('d::{plus,zero}) tree \<Rightarrow> (error + 'd list list) option" where
  "NodeDistanceMatrix t =
     distance_rows t (t_nodes t) (Matrix_new (length (t_nodes t)) (length (t_nodes t)))"

subsection \<open>Paths and valid traversals\<close>

text \<open>
  A path from the node with index \<open>u\<close> to the node with index \<open>r\<close> is a list of links: the
  first link belongs to \<open>u\<close>, the outer link of every link belongs to the node of the next
  link, and the outer link of the last link belongs to \<open>r\<close>. Every link stands for the edge
  that it crosses. The path is simple when it passes no node twice. Its length is the sum of
  the branch lengths of its edges, added from the far end as the source adds them.
\<close>

fun is_path :: "'d tree \<Rightarrow> nat \<Rightarrow> nat \<Rightarrow> nat list \<Rightarrow> bool" where
  "is_path t u r [] \<longleftrightarrow> u = r"
| "is_path t u r (l # p) \<longleftrightarrow>
     (case (node_index_at t l, outer_node_index_at t l, branch_length_at t l) of
        (Some i, Some v, Some len) \<Rightarrow> i = u \<and> is_path t v r p
      | _ \<Rightarrow> False)"

definition path_nodes :: "'d tree \<Rightarrow> nat list \<Rightarrow> nat list" where
  "path_nodes t p = map (\<lambda>l. the (node_index_at t l)) p"

definition simple_path :: "'d tree \<Rightarrow> nat \<Rightarrow> nat \<Rightarrow> nat list \<Rightarrow> bool" where
  "simple_path t u r p \<longleftrightarrow> is_path t u r p \<and> distinct (path_nodes t p @ [r])"

definition path_length :: "('d::{plus,zero}) tree \<Rightarrow> nat list \<Rightarrow> 'd" where
  "path_length t p = foldr (\<lambda>l acc. the (branch_length_at t l) + acc) p 0"

text \<open>
  The levelorder traversal \<open>its\<close> from the node \<open>r\<close> is that of a valid tree: it starts at the
  link of \<open>r\<close>, its links resolve, it reaches every node of the tree exactly once, and the
  outer link of every link but the first belongs to a node reached before.
\<close>

definition levelorder_reaches_all :: "'d tree \<Rightarrow> nat \<Rightarrow> nat list \<Rightarrow> bool" where
  "levelorder_reaches_all t r its \<longleftrightarrow>
     its \<noteq> [] \<and> r < length (t_nodes t) \<and> hd its = n_link (t_nodes t ! r) \<and>
     node_index_at t (hd its) = Some r \<and>
     links_resolve t its \<and>
     distinct (map (node_index_at t) its) \<and>
     set (map (node_index_at t) its) = set (map Some [0..<length (t_nodes t)]) \<and>
     list_all (\<lambda>k. outer_node_index_at t (its ! k) \<in> set (map (node_index_at t) (take k its)))
       [1..<length its]"

definition levelorder_ok :: "'d tree \<Rightarrow> nat \<Rightarrow> bool" where
  "levelorder_ok t r \<longleftrightarrow>
     (case BeginLevelorder t (n_link (t_nodes t ! r)) of
        Some (Inr its) \<Rightarrow> levelorder_reaches_all t r its
      | _ \<Rightarrow> False)"

text \<open>
  A valid non-empty tree: the stored indices are the positions, and the levelorder traversal
  from every node is that of a valid tree.
\<close>

definition valid_tree :: "'d tree \<Rightarrow> bool" where
  "valid_tree t \<longleftrightarrow>
     t_nodes t \<noteq> [] \<and>
     wrong_index l_index 0 (t_links t) = None \<and>
     wrong_index n_index 0 (t_nodes t) = None \<and>
     wrong_index e_index 0 (t_edges t) = None \<and>
     list_all (levelorder_ok t) [0..<length (t_nodes t)]"

text \<open>
  For the loop invariants: a matrix of \<open>n\<close> rows and \<open>n\<close> columns; the indices of the nodes that
  the links of a list belong to; and the state of the row \<open>r\<close> after the links \<open>ls\<close>, where every
  node reached has its entry, the length of a simple path to \<open>r\<close> through nodes reached.
\<close>

definition square :: "nat \<Rightarrow> 'd list list \<Rightarrow> bool" where
  "square n mat \<longleftrightarrow> length mat = n \<and> list_all (\<lambda>row. length row = n) mat"

definition reached :: "'d tree \<Rightarrow> nat list \<Rightarrow> nat set" where
  "reached t ls = {i. Some i \<in> set (map (node_index_at t) ls)}"

definition row_done :: "('d::{plus,zero}) tree \<Rightarrow> nat \<Rightarrow> nat list \<Rightarrow> 'd list list \<Rightarrow> bool" where
  "row_done t r ls mat \<longleftrightarrow>
     (\<forall>i \<in> reached t ls.
        \<exists>p. simple_path t i r p \<and> set (path_nodes t p) \<subseteq> reached t ls \<and>
            mat ! r ! i = path_length t p)"

definition row_correct :: "('d::{plus,zero}) tree \<Rightarrow> nat \<Rightarrow> 'd list list \<Rightarrow> bool" where
  "row_correct t r mat \<longleftrightarrow>
     (\<forall>u < length (t_nodes t). \<exists>p. simple_path t u r p \<and> mat ! r ! u = path_length t p)"

section \<open>Equal, HasIdenticalTopology and Merge\<close>

subsection \<open>Equal\<close>

text \<open>
  \<^verbatim>\<open>Tree::Equal\<close> walks two preorder iterators in step. The class \<^verbatim>\<open>IteratorPreorder\<close> and
  \<^verbatim>\<open>Node::Rank\<close> are defined in files that are not among the sources, so the iterator is a
  type \<open>'it\<close> with the four operations that \<^verbatim>\<open>Equal\<close> applies to it: \<^verbatim>\<open>BeginPreorder()\<close>, the
  test \<^verbatim>\<open>it != EndPreorder()\<close>, the increment \<^verbatim>\<open>++it\<close> and \<^verbatim>\<open>it.Node()->Rank()\<close>.
\<close>

record ('d, 'it) preorder =
  BeginPreorder :: "'d tree \<Rightarrow> 'it"
  not_at_end :: "'it \<Rightarrow> bool"
  increment :: "'it \<Rightarrow> 'it"
  Rank :: "'it \<Rightarrow> int"

text \<open>The loop of \<^verbatim>\<open>Equal\<close> with the test that follows it. It runs as long as both iterators do.\<close>

partial_function (option) Equal_loop ::
    "('d, 'it) preorder \<Rightarrow> ('it \<Rightarrow> 'it \<Rightarrow> bool) \<Rightarrow> 'it \<Rightarrow> 'it \<Rightarrow> bool option" where
  "Equal_loop po comparator it_l it_r =
     (if not_at_end po it_l \<and> not_at_end po it_r
      then if Rank po it_l = Rank po it_r \<and> comparator it_l it_r
           then Equal_loop po comparator (increment po it_l) (increment po it_r)
           else Some False
      else if not_at_end po it_l \<or> not_at_end po it_r then Some False
      else Some True)"

definition Equal ::
    "('d, 'it) preorder \<Rightarrow> 'd tree \<Rightarrow> 'd tree \<Rightarrow> ('it \<Rightarrow> 'it \<Rightarrow> bool) \<Rightarrow> bool option" where
  "Equal po lhs rhs comparator =
     (if length (t_links lhs) = length (t_links rhs) \<and>
         length (t_nodes lhs) = length (t_nodes rhs) \<and>
         length (t_edges lhs) = length (t_edges rhs)
      then Equal_loop po comparator (BeginPreorder po lhs) (BeginPreorder po rhs)
      else Some False)"

definition HasIdenticalTopology :: "('d, 'it) preorder \<Rightarrow> 'd tree \<Rightarrow> 'd tree \<Rightarrow> bool option" where
  "HasIdenticalTopology po this right = Equal po this right (\<lambda>it_l it_r. True)"

declare Equal_loop.simps [code]

subsection \<open>EdgeNumMap and Merge\<close>

text \<open>
  Modelled from the spec: \<^verbatim>\<open>Placements::EdgeNumMap\<close> is declared in \<^verbatim>\<open>placements.hpp\<close> and its
  body is not among the sources. It is the mapping from the external \<^verbatim>\<open>edge_num\<close> to the edge
  of the tree, built by one pass over all edges.
\<close>

definition EdgeNumMap :: "'d tree \<Rightarrow> int \<Rightarrow> nat option" where
  "EdgeNumMap t = map_of (map (\<lambda>i. (edge_num (t_edges t ! i), i)) (rev [0..<length (t_edges t)]))"

text \<open>
  Modelled from the spec: the placement \<open>pl\<close> of a Sample on the tree \<open>other\<close> pointed at the
  edge of the tree \<open>this\<close> that has the same \<^verbatim>\<open>edge_num\<close>. A placement whose \<^verbatim>\<open>edge_num\<close> is
  not in the map is a reference that does not resolve, and the operation fails.
\<close>

definition repoint_placement ::
    "'d tree \<Rightarrow> 'd tree \<Rightarrow> 'd PqueryPlacement \<Rightarrow> error + 'd PqueryPlacement" where
  "repoint_placement this other pl =
     (case deref (t_edges other) (pl_edge pl) of
        None \<Rightarrow> Inl BadPointer
      | Some e \<Rightarrow>
          (case EdgeNumMap this (edge_num e) of
             None \<Rightarrow> Inl ReferenceInvalid
           | Some i \<Rightarrow> Inr (pl\<lparr>pl_edge := i\<rparr>)))"

text \<open>Modelled from the spec: a pquery with every placement pointed at the tree \<open>this\<close>.\<close>

definition repoint_pquery :: "'d tree \<Rightarrow> 'd tree \<Rightarrow> 'd Pquery \<Rightarrow> error + 'd Pquery" where
  "repoint_pquery this other pq =
     (case collect (repoint_placement this other) (pq_placements pq) of
        Inl e \<Rightarrow> Inl e
      | Inr pls \<Rightarrow> Inr (pq\<lparr>pq_placements := pls\<rparr>))"

text \<open>
  Modelled from the spec: \<^verbatim>\<open>Placements::Merge\<close> is declared in \<^verbatim>\<open>placements.hpp\<close> and its body
  is not among the sources. It returns false and leaves the Sample as it is unless
  \<^verbatim>\<open>HasIdenticalTopology\<close> holds between the trees of the two Samples; on success it appends
  the pqueries of \<open>other\<close>, pointed at the edges of the tree of \<open>this\<close> through \<^verbatim>\<open>EdgeNumMap\<close>,
  unites the metadata, where a key of \<open>this\<close> keeps its value, and consumes \<open>other\<close>, which is
  left without pqueries. The result is the boolean with the two Samples as the call leaves
  them.
\<close>

definition Merge ::
    "('d, 'it) preorder \<Rightarrow> 'd Sample \<Rightarrow> 'd Sample \<Rightarrow> (error + bool \<times> 'd Sample \<times> 'd Sample) option" where
  "Merge po this other =
     (case HasIdenticalTopology po (s_tree this) (s_tree other) of
        None \<Rightarrow> None
      | Some False \<Rightarrow> Some (Inr (False, this, other))
      | Some True \<Rightarrow>
          (case collect (repoint_pquery (s_tree this) (s_tree other)) (s_pqueries other) of
             Inl e \<Rightarrow> Some (Inl e)
           | Inr pqs \<Rightarrow>
               Some (Inr (True,
                 this\<lparr>s_pqueries := s_pqueries this @ pqs,
                      s_metadata := s_metadata this @
                        filter (\<lambda>kv. map_of (s_metadata this) (fst kv) = None) (s_metadata other)\<rparr>,
                 other\<lparr>s_pqueries := []\<rparr>))))"

text \<open>
  A preorder iterator for the examples: the links still to visit, in the order of \<^verbatim>\<open>links_\<close>;
  the rank at a link is the number of the other links of its node.
\<close>

definition example_preorder :: "(int, int tree \<times> nat list) preorder" where
  "example_preorder =
     \<lparr>BeginPreorder = (\<lambda>t. (t, [0..<length (t_links t)])),
      not_at_end = (\<lambda>it. snd it \<noteq> []),
      increment = (\<lambda>it. (fst it, tl (snd it))),
      Rank = (\<lambda>it. int (length (filter (\<lambda>l. l_node l = l_node (t_links (fst it) ! hd (snd it)))
                                  (t_links (fst it)))) - 1)\<rparr>"

text \<open>
  A Sample on the tree \<^verbatim>\<open>((A,B)I,C)R;\<close> of five nodes, and a Sample on the tree \<^verbatim>\<open>(A,B,C)R;\<close>
  with other branch lengths than \<open>example_sample\<close>.
\<close>

definition nested_tree :: "int tree" where
  "nested_tree =
     \<lparr>t_links =
        [\<lparr>l_index = 0, l_next = 1, l_outer = 2, l_node = 0, l_edge = 0\<rparr>,
         \<lparr>l_index = 1, l_next = 0, l_outer = 7, l_node = 0, l_edge = 3\<rparr>,
         \<lparr>l_index = 2, l_next = 3, l_outer = 0, l_node = 1, l_edge = 0\<rparr>,
         \<lparr>l_index = 3, l_next = 4, l_outer = 5, l_node = 1, l_edge = 1\<rparr>,
         \<lparr>l_index = 4, l_next = 2, l_outer = 6, l_node = 1, l_edge = 2\<rparr>,
         \<lparr>l_index = 5, l_next = 5, l_outer = 3, l_node = 2, l_edge = 1\<rparr>,
         \<lparr>l_index = 6, l_next = 6, l_outer = 4, l_node = 3, l_edge = 2\<rparr>,
         \<lparr>l_index = 7, l_next = 7, l_outer = 1, l_node = 4, l_edge = 3\<rparr>],
      t_nodes =
        [\<lparr>n_index = 0, n_link = 0, n_name = ''R''\<rparr>,
         \<lparr>n_index = 1, n_link = 2, n_name = ''I''\<rparr>,
         \<lparr>n_index = 2, n_link = 5, n_name = ''A''\<rparr>,
         \<lparr>n_index = 3, n_link = 6, n_name = ''B''\<rparr>,
         \<lparr>n_index = 4, n_link = 7, n_name = ''C''\<rparr>],
      t_edges =
        [\<lparr>e_index = 0, e_link_p = 0, e_link_s = 2, branch_length = 1, edge_num = 2\<rparr>,
         \<lparr>e_index = 1, e_link_p = 3, e_link_s = 5, branch_length = 2, edge_num = 0\<rparr>,
         \<lparr>e_index = 2, e_link_p = 4, e_link_s = 6, branch_length = 3, edge_num = 1\<rparr>,
         \<lparr>e_index = 3, e_link_p = 1, e_link_s = 7, branch_length = 4, edge_num = 3\<rparr>]\<rparr>"

definition nested_sample :: "int Sample" where
  "nested_sample =
     \<lparr>s_tree = nested_tree,
      s_pqueries =
        [\<lparr>pq_placements =
            [\<lparr>pl_edge = 3, likelihood = - 9, like_weight_ratio = 1, proximal_length = 1,
              pendant_length = 2, parsimony = 0\<rparr>],
          pq_names = [\<lparr>pn_name = ''q3'', multiplicity = 0\<rparr>]\<rparr>],
      s_metadata = [(''invocation'', ''place'')]\<rparr>"

definition other_sample :: "int Sample" where
  "other_sample =
     \<lparr>s_tree = star_tree 1 1 1,
      s_pqueries =
        [\<lparr>pq_placements =
            [\<lparr>pl_edge = 2, likelihood = - 9, like_weight_ratio = 1, proximal_length = 1,
              pendant_length = 2, parsimony = 0\<rparr>],
          pq_names = [\<lparr>pn_name = ''q4'', multiplicity = 0\<rparr>]\<rparr>],
      s_metadata = [(''invocation'', ''place'')]\<rparr>"

section \<open>Earth mover's distance\<close>

text \<open>
  Modelled from the spec: \<^verbatim>\<open>Placements::EMD\<close> is declared in \<^verbatim>\<open>placements.hpp\<close> and its body is
  not among the sources. The specification defines it in three steps. The mass of an edge is
  the sum of the \<^verbatim>\<open>like_weight_ratio\<close> of the placements on it, those of \<open>left\<close> with sign
  \<open>+1\<close> and those of \<open>right\<close> with sign \<open>-1\<close>, where the ratios of a pquery whose sum is
  below 1 are rescaled by the inverse of the sum. One traversal from a root visits every edge
  on the way up and accumulates the net signed mass of its subtree. The distance is the sum
  over the edges of the absolute net mass of the subtree times the branch length; on an empty
  tree it is 0. The masses and branch lengths are real numbers here.
\<close>

definition pquery_ratio_sum :: "real Pquery \<Rightarrow> real" where
  "pquery_ratio_sum pq = sum_list (map like_weight_ratio (pq_placements pq))"

text \<open>
  Modelled from the spec: the ratio of a placement after the normalization of its pquery.
\<close>

definition normalized_ratio :: "real Pquery \<Rightarrow> real PqueryPlacement \<Rightarrow> real" where
  "normalized_ratio pq pl =
     (if pquery_ratio_sum pq < 1 then like_weight_ratio pl * (1 / pquery_ratio_sum pq)
      else like_weight_ratio pl)"

text \<open>
  Modelled from the spec: the mass that a pquery, a Sample and a pair of Samples put on the
  edge \<open>e\<close>.
\<close>

definition pquery_mass :: "real Pquery \<Rightarrow> nat \<Rightarrow> real" where
  "pquery_mass pq e =
     sum_list (map (normalized_ratio pq) (filter (\<lambda>pl. pl_edge pl = e) (pq_placements pq)))"

definition edge_mass :: "real Sample \<Rightarrow> nat \<Rightarrow> real" where
  "edge_mass smp e = sum_list (map (\<lambda>pq. pquery_mass pq e) (s_pqueries smp))"

definition signed_mass :: "real Sample \<Rightarrow> real Sample \<Rightarrow> nat \<Rightarrow> real" where
  "signed_mass left right e = edge_mass left e - edge_mass right e"

text \<open>
  Modelled from the spec: the step at a link \<open>l\<close> on the way up. The state is the mass that has arrived at every node
  from the subtrees below it, and the distance so far. The net mass of the subtree of the edge
  of \<open>l\<close> is what has arrived at the node of \<open>l\<close> plus the mass of the edge; it is charged
  with the branch length and handed to the node at the other end.
\<close>

definition emd_step ::
    "real tree \<Rightarrow> (nat \<Rightarrow> real) \<Rightarrow> nat \<Rightarrow> (nat \<Rightarrow> real) \<times> real \<Rightarrow> error + (nat \<Rightarrow> real) \<times> real" where
  "emd_step t mass l st =
     (case (edge_at t l, node_index_at t l, outer_node_index_at t l, branch_length_at t l) of
        (Some e, Some v, Some u, Some len) \<Rightarrow>
          (let net = fst st v + mass e
           in Inr ((fst st)(u := fst st u + net), snd st + \<bar>net\<bar> * len))
      | _ \<Rightarrow> Inl BadPointer)"

text \<open>
  Modelled from the spec: the distance of the masses of two Samples along the tree \<open>t\<close>. The
  traversal on the way up takes the links of the tree in an order that reaches every edge
  after the edges of its subtree: the levelorder sequence from the first link, without the
  first link, read backwards. On an empty tree the distance is 0.
\<close>

definition EMD_on :: "real tree \<Rightarrow> real Sample \<Rightarrow> real Sample \<Rightarrow> (error + real) option" where
  "EMD_on t left right =
     (if t_links t = [] then Some (Inr 0)
      else (case BeginLevelorder t 0 of
              None \<Rightarrow> None
            | Some (Inl e) \<Rightarrow> Some (Inl e)
            | Some (Inr its) \<Rightarrow>
                (case for_each (emd_step t (signed_mass left right)) (rev (tl its))
                        (\<lambda>v. 0, 0) of
                   Inl e \<Rightarrow> Some (Inl e)
                 | Inr st \<Rightarrow> Some (Inr (snd st)))))"

text \<open>
  Modelled from the spec: the distance of two Samples. The specification has one traversal and
  one branch length for every edge, and each Sample has a tree of its own; the tree taken
  here is that of \<open>left\<close>, the Sample on which the member form \<^verbatim>\<open>EMD(other)\<close>, which is
  \<^verbatim>\<open>EMD(*this, other)\<close>, is called.
\<close>

definition EMD :: "real Sample \<Rightarrow> real Sample \<Rightarrow> (error + real) option" where
  "EMD left right = EMD_on (s_tree left) left right"

text \<open>
  Two trees have the same topology when they have the same links, which hold the quadruples
  of node, edge, next and outer, the same stored node indices and equally many edges. They
  have the same branch lengths when their edges have, position by position.
\<close>

definition same_topology :: "'d tree \<Rightarrow> 'd tree \<Rightarrow> bool" where
  "same_topology ta tb \<longleftrightarrow>
     t_links ta = t_links tb \<and> map n_index (t_nodes ta) = map n_index (t_nodes tb) \<and>
     length (t_edges ta) = length (t_edges tb)"

definition same_branch_lengths :: "'d tree \<Rightarrow> 'd tree \<Rightarrow> bool" where
  "same_branch_lengths ta tb \<longleftrightarrow>
     map branch_length (t_edges ta) = map branch_length (t_edges tb)"

text \<open>
  The traversal of a tree for the distance is sound: it returns the links \<open>its\<close>, and every
  link after the first resolves to its edge and nodes. It is complete when it also reaches
  every edge of the tree.
\<close>

definition emd_traversal :: "'d tree \<Rightarrow> nat list \<Rightarrow> bool" where
  "emd_traversal t its \<longleftrightarrow>
     BeginLevelorder t 0 = Some (Inr its) \<and> links_resolve t (tl its)"

definition reaches_every_edge :: "'d tree \<Rightarrow> nat list \<Rightarrow> bool" where
  "reaches_every_edge t its \<longleftrightarrow>
     list_all (\<lambda>e. Some e \<in> set (map (edge_at t) (tl its))) [0..<length (t_edges t)]"

definition positive_branch_lengths :: "real tree \<Rightarrow> bool" where
  "positive_branch_lengths t \<longleftrightarrow> list_all (\<lambda>e. 0 < branch_length e) (t_edges t)"

definition same_masses :: "real Sample \<Rightarrow> real Sample \<Rightarrow> bool" where
  "same_masses a b \<longleftrightarrow>
     list_all (\<lambda>e. edge_mass a e = edge_mass b e) [0..<length (t_edges (s_tree a))]"

text \<open>A Sample with one query, of mass 1, on the edge \<open>e\<close> of the tree \<open>t\<close>.\<close>

definition sample_on :: "real tree \<Rightarrow> nat \<Rightarrow> real Sample" where
  "sample_on t e =
     \<lparr>s_tree = t,
      s_pqueries =
        [\<lparr>pq_placements =
            [\<lparr>pl_edge = e, likelihood = - 10, like_weight_ratio = 1, proximal_length = 0,
              pendant_length = 1, parsimony = 0\<rparr>],
          pq_names = [\<lparr>pn_name = ''q'', multiplicity = 0\<rparr>]\<rparr>],
      s_metadata = []\<rparr>"

section \<open>Properties\<close>

subsection \<open>Validate\<close>

lemma wrong_index_None:
  "wrong_index idx i xs = None \<longleftrightarrow> (\<forall>j < length xs. idx (xs ! j) = i + j)"
proof (induction xs arbitrary: i)
  case Nil
  show ?case by simp
next
  case (Cons x xs)
  show ?case
  proof (cases "i = idx x")
    case True
    have "(\<forall>j < length (x # xs). idx ((x # xs) ! j) = i + j) \<longleftrightarrow>
          (\<forall>j < length xs. idx (xs ! j) = Suc i + j)"
      using True by (auto simp: less_Suc_eq_0_disj)
    then show ?thesis using True Cons.IH [of "Suc i"] by simp
  next
    case False
    then have "\<not> (\<forall>j < length (x # xs). idx ((x # xs) ! j) = i + j)"
      by (auto intro: exI [of _ 0])
    then show ?thesis using False by simp
  qed
qed

text \<open>The round trip returns when some positive number of steps leads back to link 0.\<close>

lemma walk_roundtrip_returns:
  "0 < k \<Longrightarrow> walk t k l = Some 0 \<Longrightarrow> roundtrip t l = Some (Inr ())"
proof (induction k arbitrary: l)
  case 0
  then show ?case by simp
next
  case (Suc k)
  from Suc.prems obtain l' where step: "next_outer t l = Some l'" and rest: "walk t k l' = Some 0"
    by (cases "next_outer t l") auto
  show ?case
  proof (cases "l' = 0")
    case True
    with step show ?thesis by (subst roundtrip.simps) simp
  next
    case False
    with rest have "0 < k" by (cases k) auto
    with Suc.IH rest have "roundtrip t l' = Some (Inr ())" by blast
    with step False show ?thesis by (subst roundtrip.simps) simp
  qed
qed

lemma Validate_nonempty:
  assumes "t_links t \<noteq> []" "t_nodes t \<noteq> []" "t_edges t \<noteq> []" "stored_indices_ok t"
  shows "Validate t =
           (if l_node (hd (t_links t)) \<noteq> 0 then Some (Inr False)
            else (case roundtrip t 0 of
                    None \<Rightarrow> Some (Inl UndefinedBehaviour)
                  | Some (Inl e) \<Rightarrow> Some (Inl UndefinedBehaviour)
                  | Some (Inr u) \<Rightarrow> Some (Inr True)))"
  using assms by (simp add: Validate_def stored_indices_ok_def wrong_index_None)

lemma Validate_wrong_index:
  assumes "t_links t \<noteq> []" "t_nodes t \<noteq> []" "t_edges t \<noteq> []" "\<not> stored_indices_ok t"
  shows "Validate t = Some (Inr False)"
  using assms by (auto simp: Validate_def stored_indices_ok_def wrong_index_None)

lemma stored_indices_ok_iff:
  "stored_indices_ok t \<longleftrightarrow>
     wrong_index l_index 0 (t_links t) = None \<and>
     wrong_index n_index 0 (t_nodes t) = None \<and>
     wrong_index e_index 0 (t_edges t) = None"
  by (simp add: stored_indices_ok_def wrong_index_None)

lemma star_tree_indices: "stored_indices_ok (star_tree a b c)"
  by (simp add: stored_indices_ok_iff star_tree_def)

lemma star_tree_walk: "walk (star_tree a b c) 6 0 = Some 0"
  by (simp add: eval_nat_numeral star_tree_def next_outer_def deref_def)

text \<open>
  Claim C1, as the code has it. On a non-empty tree whose arrays pass the checks of the stored
  indices, \<open>Validate\<close> returns false when the first link does not belong to the first node,
  and it returns true when the first link belongs to the first node and following
  \<^verbatim>\<open>next\<close>\<open>\<rightarrow>\<close>\<^verbatim>\<open>outer\<close> from the first link is back at the first link after some positive
  number of steps. Whether the round trip passes through every link, and whether the two
  links of an edge belong to different nodes, is not looked at. Nothing is stated for a walk
  that never comes back or meets a pointer to nothing.
\<close>

theorem Validate_roundtrip:
  assumes "t_links t \<noteq> []" "t_nodes t \<noteq> []" "t_edges t \<noteq> []" "stored_indices_ok t"
  shows "(l_node (hd (t_links t)) \<noteq> 0 \<longrightarrow> Validate t = Some (Inr False)) \<and>
         (l_node (hd (t_links t)) = 0 \<and> (\<exists>k>0. walk t k 0 = Some 0) \<longrightarrow>
            Validate t = Some (Inr True))"
proof (intro conjI impI)
  assume "l_node (hd (t_links t)) \<noteq> 0"
  then show "Validate t = Some (Inr False)"
    by (simp add: Validate_nonempty [OF assms])
next
  assume a: "l_node (hd (t_links t)) = 0 \<and> (\<exists>k>0. walk t k 0 = Some 0)"
  then obtain k where "0 < k" "walk t k 0 = Some 0"
    by blast
  then have "roundtrip t 0 = Some (Inr ())"
    by (rule walk_roundtrip_returns)
  with a show "Validate t = Some (Inr True)"
    by (simp add: Validate_nonempty [OF assms])
qed

theorem Validate_roundtrip_witness:
  "stored_indices_ok (star_tree 2 3 5 :: int tree) \<and>
   l_node (hd (t_links (star_tree 2 3 5 :: int tree))) = 0 \<and>
   walk (star_tree 2 3 5 :: int tree) 6 0 = Some 0 \<and>
   Validate (star_tree 2 3 5 :: int tree) = Some (Inr True) \<and>
   stored_indices_ok misrooted_tree \<and>
   l_node (hd (t_links misrooted_tree)) \<noteq> 0 \<and>
   Validate misrooted_tree = Some (Inr False)"
proof -
  let ?t = "star_tree 2 3 5 :: int tree"
  have ne: "t_links ?t \<noteq> []" "t_nodes ?t \<noteq> []" "t_edges ?t \<noteq> []"
    by (simp_all add: star_tree_def)
  have frst: "l_node (hd (t_links ?t)) = 0"
    by (simp add: star_tree_def)
  have i: "stored_indices_ok ?t"
    by (rule star_tree_indices)
  have w: "walk ?t 6 0 = Some 0"
    by (rule star_tree_walk)
  have cyc: "\<exists>k>0. walk ?t k 0 = Some 0"
    using w by (intro exI [of _ 6]) simp
  from Validate_roundtrip [OF ne i] frst cyc
  have v: "Validate ?t = Some (Inr True)"
    by blast
  have ne': "t_links misrooted_tree \<noteq> []" "t_nodes misrooted_tree \<noteq> []"
    "t_edges misrooted_tree \<noteq> []"
    by (simp_all add: misrooted_tree_def star_tree_def)
  have i': "stored_indices_ok misrooted_tree"
    by (simp add: stored_indices_ok_iff misrooted_tree_def star_tree_def)
  have frst': "l_node (hd (t_links misrooted_tree)) \<noteq> 0"
    by (simp add: misrooted_tree_def star_tree_def)
  from Validate_roundtrip [OF ne' i'] frst'
  have v': "Validate misrooted_tree = Some (Inr False)"
    by blast
  from i frst w v i' frst' v' show ?thesis
    by blast
qed

text \<open>
  Claim C1, as it is stated, fails: \<open>split_tree\<close> is not empty and passes every check of the
  stored indices, its round trip is back at the first link after two of the four links, both
  links of its edge 0 belong to node 0, and \<open>Validate\<close> returns true.
\<close>

theorem Validate_misses_invariants:
  "t_links split_tree \<noteq> [] \<and> t_nodes split_tree \<noteq> [] \<and> t_edges split_tree \<noteq> [] \<and>
   stored_indices_ok split_tree \<and>
   \<not> euler_tour_closure split_tree \<and>
   \<not> edges_join_different_nodes split_tree \<and>
   Validate split_tree = Some (Inr True)"
proof -
  have "stored_indices_ok split_tree"
    by (simp add: stored_indices_ok_iff split_tree_def)
  moreover have "\<not> euler_tour_closure split_tree"
    by (simp add: euler_tour_closure_def split_tree_def Let_def upt_rec [of 0]
        eval_nat_numeral next_outer_def deref_def)
  moreover have "\<not> edges_join_different_nodes split_tree"
    by (simp add: edges_join_different_nodes_def split_tree_def deref_def)
  moreover have "Validate split_tree = Some (Inr True)"
    by (simp add: Validate_def split_tree_def roundtrip.simps next_outer_def deref_def)
  ultimately show ?thesis
    by (simp add: split_tree_def)
qed

text \<open>
  Claim C5. \<open>Validate\<close> returns true on a tree whose three arrays are empty, false on a tree
  where some but not all of them are empty, and false on a non-empty tree in which some
  element of some array does not store its own position as index.
\<close>

theorem Validate_arrays:
  "(t_links t = [] \<and> t_nodes t = [] \<and> t_edges t = [] \<longrightarrow> Validate t = Some (Inr True)) \<and>
   ((t_links t = [] \<or> t_nodes t = [] \<or> t_edges t = []) \<and>
    \<not> (t_links t = [] \<and> t_nodes t = [] \<and> t_edges t = []) \<longrightarrow>
      Validate t = Some (Inr False)) \<and>
   (t_links t \<noteq> [] \<and> t_nodes t \<noteq> [] \<and> t_edges t \<noteq> [] \<and> \<not> stored_indices_ok t \<longrightarrow>
      Validate t = Some (Inr False))"
proof (intro conjI impI)
  assume "t_links t = [] \<and> t_nodes t = [] \<and> t_edges t = []"
  then show "Validate t = Some (Inr True)"
    by (simp add: Validate_def)
next
  assume "(t_links t = [] \<or> t_nodes t = [] \<or> t_edges t = []) \<and>
          \<not> (t_links t = [] \<and> t_nodes t = [] \<and> t_edges t = [])"
  then show "Validate t = Some (Inr False)"
    by (auto simp: Validate_def)
next
  assume "t_links t \<noteq> [] \<and> t_nodes t \<noteq> [] \<and> t_edges t \<noteq> [] \<and> \<not> stored_indices_ok t"
  then show "Validate t = Some (Inr False)"
    by (simp add: Validate_wrong_index)
qed

theorem Validate_arrays_witness:
  "Validate empty_tree = Some (Inr True) \<and>
   t_links edgeless_tree \<noteq> [] \<and> t_edges edgeless_tree = [] \<and>
   Validate edgeless_tree = Some (Inr False) \<and>
   t_links misnumbered_tree \<noteq> [] \<and> t_nodes misnumbered_tree \<noteq> [] \<and>
   t_edges misnumbered_tree \<noteq> [] \<and> \<not> stored_indices_ok misnumbered_tree \<and>
   Validate misnumbered_tree = Some (Inr False)"
proof -
  have e: "t_links empty_tree = [] \<and> t_nodes empty_tree = [] \<and> t_edges empty_tree = []"
    by (simp add: empty_tree_def)
  have h: "t_links edgeless_tree \<noteq> []" "t_edges edgeless_tree = []"
    by (simp_all add: edgeless_tree_def star_tree_def)
  have m: "t_links misnumbered_tree \<noteq> []" "t_nodes misnumbered_tree \<noteq> []"
    "t_edges misnumbered_tree \<noteq> []"
    by (simp_all add: misnumbered_tree_def star_tree_def)
  have w: "\<not> stored_indices_ok misnumbered_tree"
    by (simp add: stored_indices_ok_iff misnumbered_tree_def star_tree_def)
  from Validate_arrays [of empty_tree] Validate_arrays [of edgeless_tree]
    Validate_arrays [of misnumbered_tree] e h m w
  show ?thesis by simp
qed

subsection \<open>Bitvector\<close>

lemma div_less_reserved_words: "index < sz \<Longrightarrow> index div IntSize < reserved_words sz"
proof (cases "sz mod IntSize = 0")
  case True
  assume "index < sz"
  moreover from True have "sz = (sz div IntSize) * IntSize"
    by (metis add.right_neutral div_mult_mod_eq)
  ultimately have "index < (sz div IntSize) * IntSize"
    by simp
  then have "index div IntSize < sz div IntSize"
    by (rule less_mult_imp_div_less)
  with True show ?thesis
    by (simp only: reserved_words_def if_True add_0_right)
next
  case False
  assume "index < sz"
  then have "index div IntSize \<le> sz div IntSize"
    by (intro div_le_mono) simp
  with False show ?thesis
    by (simp add: reserved_words_def)
qed

lemma word_of_bit_in_range:
  assumes "allocated b" "index < bv_size b"
  shows "index div IntSize < length (bv_data b)"
  using assms div_less_reserved_words [of index "bv_size b"]
  by (simp only: allocated_def)

text \<open>
  Claim C9. For an index at or beyond \<^verbatim>\<open>size()\<close>, \<^verbatim>\<open>get\<close> returns false and \<^verbatim>\<open>set\<close> leaves the
  Bitvector as it is. For a Bitvector with the words its constructor reserves and a mask table
  of \<^verbatim>\<open>IntSize\<close> entries, neither accessor reads or writes beyond the end of \<^verbatim>\<open>data_\<close> or of
  the table, whatever the index, and \<^verbatim>\<open>set\<close> keeps the number of words.
\<close>

theorem Bitvector_bounds_checked:
  "(bv_size b \<le> index \<longrightarrow>
      Bitvector_get bit_mask b index = Inr False \<and> Bitvector_set bit_mask b index = Inr b) \<and>
   (allocated b \<and> length bit_mask = IntSize \<longrightarrow>
      (\<exists>r. Bitvector_get bit_mask b index = Inr r) \<and>
      (\<exists>b'. Bitvector_set bit_mask b index = Inr b' \<and> allocated b' \<and> bv_size b' = bv_size b))"
proof (intro conjI impI)
  assume "bv_size b \<le> index"
  then show "Bitvector_get bit_mask b index = Inr False"
    by (simp add: Bitvector_get_def)
next
  assume "bv_size b \<le> index"
  then show "Bitvector_set bit_mask b index = Inr b"
    by (simp add: Bitvector_set_def)
next
  assume a: "allocated b \<and> length bit_mask = IntSize"
  then have m: "index mod IntSize < length bit_mask"
    by (simp add: IntSize_def)
  show "\<exists>r. Bitvector_get bit_mask b index = Inr r"
  proof (cases "index < bv_size b")
    case True
    with a have "index div IntSize < length (bv_data b)"
      by (intro word_of_bit_in_range) simp_all
    with m True show ?thesis
      by (simp add: Bitvector_get_def deref_def)
  next
    case False
    then have "Bitvector_get bit_mask b index = Inr False"
      by (simp add: Bitvector_get_def)
    then show ?thesis by blast
  qed
next
  assume a: "allocated b \<and> length bit_mask = IntSize"
  then have m: "index mod IntSize < length bit_mask"
    by (simp add: IntSize_def)
  show "\<exists>b'. Bitvector_set bit_mask b index = Inr b' \<and> allocated b' \<and> bv_size b' = bv_size b"
  proof (cases "index < bv_size b")
    case True
    with a have "index div IntSize < length (bv_data b)"
      by (intro word_of_bit_in_range) simp_all
    with m True a show ?thesis
      by (simp add: Bitvector_set_def deref_def allocated_def)
  next
    case False
    with a show ?thesis by (simp add: Bitvector_set_def)
  qed
qed

theorem Bitvector_bounds_checked_witness:
  "bv_size seventy_bits \<le> 70 \<and>
   Bitvector_get single_bit_masks seventy_bits 70 = Inr False \<and>
   Bitvector_set single_bit_masks seventy_bits 70 = Inr seventy_bits \<and>
   allocated seventy_bits \<and> length single_bit_masks = IntSize \<and>
   Bitvector_get single_bit_masks seventy_bits 69 = Inr True \<and>
   Bitvector_set single_bit_masks seventy_bits 68 =
     Inr \<lparr>bv_size = 70, bv_data = [5, 48]\<rparr>"
proof -
  have s: "bv_size seventy_bits \<le> 70"
    by (simp add: seventy_bits_def)
  have a: "allocated seventy_bits \<and> length single_bit_masks = IntSize"
    by (simp add: allocated_def reserved_words_def seventy_bits_def single_bit_masks_def
        IntSize_def)
  have m5: "single_bit_masks ! 5 = 32" and m4: "single_bit_masks ! 4 = 16"
    by (simp_all add: single_bit_masks_def)
  have g: "Bitvector_get single_bit_masks seventy_bits 69 = Inr True"
    using a by (simp add: Bitvector_get_def seventy_bits_def deref_def IntSize_def m5)
  have u: "Bitvector_set single_bit_masks seventy_bits 68 = Inr \<lparr>bv_size = 70, bv_data = [5, 48]\<rparr>"
    using a by (simp add: Bitvector_set_def seventy_bits_def deref_def IntSize_def m4)
  from Bitvector_bounds_checked [of seventy_bits 70 single_bit_masks] s
  have c: "Bitvector_get single_bit_masks seventy_bits 70 = Inr False \<and>
           Bitvector_set single_bit_masks seventy_bits 70 = Inr seventy_bits"
    by blast
  from s a g u c show ?thesis by blast
qed

subsection \<open>The jplace writer\<close>

lemma collect_map:
  "(\<And>x. x \<in> set xs \<Longrightarrow> f x = Inr (g x)) \<Longrightarrow> collect f xs = Inr (map g xs)"
  by (induction xs) simp_all

lemma has_nm_fold:
  "fold (\<lambda>pqry_name acc. acc \<or> P pqry_name) names b \<longleftrightarrow> b \<or> (\<exists>n \<in> set names. P n)"
  by (induction names arbitrary: b) auto

lemma has_nm_iff: "has_nm names \<longleftrightarrow> (\<exists>n \<in> set names. multiplicity n \<noteq> 0)"
  by (simp add: has_nm_def has_nm_fold)

text \<open>The tuple and the object that the writer builds when the edge references are good.\<close>

lemma pqry_fields_returns:
  assumes "pl_edge pl < length (t_edges t)"
  shows "pqry_fields ev t pl =
           Inr (JsonValueArray
             [JsonValueNumber (int_to_double ev (edge_num (t_edges t ! pl_edge pl))),
              JsonValueNumber (likelihood pl),
              JsonValueNumber (like_weight_ratio pl),
              JsonValueNumber (branch_length (t_edges t ! pl_edge pl) - proximal_length pl),
              JsonValueNumber (pendant_length pl)])"
  using assms by (simp add: pqry_fields_def deref_def)

lemma jpqry_returns:
  assumes "pquery_edges_ok t pq"
  shows "jpqry ev t pq =
           Inr (JsonValueObject
             [(''p'', JsonValueArray
                 (map (\<lambda>pl. JsonValueArray
                    [JsonValueNumber (int_to_double ev (edge_num (t_edges t ! pl_edge pl))),
                     JsonValueNumber (likelihood pl),
                     JsonValueNumber (like_weight_ratio pl),
                     JsonValueNumber (branch_length (t_edges t ! pl_edge pl) - proximal_length pl),
                     JsonValueNumber (pendant_length pl)])
                  (pq_placements pq))),
              if has_nm (pq_names pq) then (''nm'', pqry_nm_arr (pq_names pq))
              else (''n'', pqry_n_arr (pq_names pq))])"
proof -
  have "\<And>pl. pl \<in> set (pq_placements pq) \<Longrightarrow> pl_edge pl < length (t_edges t)"
    using assms by (simp add: pquery_edges_ok_def list_all_iff)
  then have "collect (pqry_fields ev t) (pq_placements pq) =
      Inr (map (\<lambda>pl. JsonValueArray
                    [JsonValueNumber (int_to_double ev (edge_num (t_edges t ! pl_edge pl))),
                     JsonValueNumber (likelihood pl),
                     JsonValueNumber (like_weight_ratio pl),
                     JsonValueNumber (branch_length (t_edges t ! pl_edge pl) - proximal_length pl),
                     JsonValueNumber (pendant_length pl)])
                  (pq_placements pq))"
    by (intro collect_map pqry_fields_returns)
  then show ?thesis
    by (simp add: jpqry_def JsonValueObject_set_def)
qed

lemma jpqry_total:
  assumes "pquery_edges_ok t pq"
  shows "jpqry ev t pq = Inr (projr (jpqry ev t pq))"
  by (simp add: jpqry_returns [OF assms])

lemma to_document_returns:
  assumes "sample_edges_ok smp"
  shows "to_document ev smp =
           Inr [(''tree'', JsonValueString (newick_to_string ev (s_tree smp))),
                (''placements'',
                   JsonValueArray (map (\<lambda>pq. projr (jpqry ev (s_tree smp) pq)) (s_pqueries smp))),
                (''fields'', jfields),
                (''version'', JsonValueNumber (int_to_double ev 3)),
                (''metadata'',
                   JsonValueObject [(''invocation'', JsonValueString (command_line_string ev))])]"
proof -
  have "\<And>pq. pq \<in> set (s_pqueries smp) \<Longrightarrow> pquery_edges_ok (s_tree smp) pq"
    using assms by (simp add: sample_edges_ok_def list_all_iff)
  then have "collect (jpqry ev (s_tree smp)) (s_pqueries smp) =
      Inr (map (\<lambda>pq. projr (jpqry ev (s_tree smp) pq)) (s_pqueries smp))"
    by (intro collect_map jpqry_total)
  then show ?thesis
    by (simp add: to_document_def JsonValueObject_set_def)
qed

lemma pquery_object_to_document:
  assumes "sample_edges_ok smp" "to_document ev smp = Inr doc" "i < length (s_pqueries smp)"
  shows "pquery_edges_ok (s_tree smp) (s_pqueries smp ! i)"
    and "pquery_object doc i = Some (projr (jpqry ev (s_tree smp) (s_pqueries smp ! i)))"
proof -
  show "pquery_edges_ok (s_tree smp) (s_pqueries smp ! i)"
    using assms(1,3) by (simp add: sample_edges_ok_def list_all_length)
  show "pquery_object doc i = Some (projr (jpqry ev (s_tree smp) (s_pqueries smp ! i)))"
    using assms(2,3) unfolding to_document_returns [OF assms(1)]
    by (auto simp: pquery_object_def deref_def)
qed

lemma example_sample_edges_ok: "sample_edges_ok example_sample"
  by (simp add: sample_edges_ok_def pquery_edges_ok_def example_sample_def star_tree_def)

text \<open>
  Claim C7. For every Sample whose placements refer to edges of its tree, the writer returns a
  document whose \<^verbatim>\<open>fields\<close> are \<^verbatim>\<open>edge_num\<close>, \<^verbatim>\<open>likelihood\<close>, \<^verbatim>\<open>like_weight_ratio\<close>,
  \<^verbatim>\<open>distal_length\<close> and \<^verbatim>\<open>pendant_length\<close> in this order, whose \<^verbatim>\<open>version\<close> is the number 3,
  and in which the fourth entry of the tuple of every placement is the branch length of the
  edge of the placement minus the stored proximal length.
\<close>

theorem to_document_fields_version_distal:
  assumes "sample_edges_ok smp"
  shows "\<exists>doc. to_document ev smp = Inr doc \<and>
           map_of doc ''fields'' =
             Some (JsonValueArray
               [JsonValueString ''edge_num'', JsonValueString ''likelihood'',
                JsonValueString ''like_weight_ratio'', JsonValueString ''distal_length'',
                JsonValueString ''pendant_length'']) \<and>
           map_of doc ''version'' = Some (JsonValueNumber (int_to_double ev 3)) \<and>
           (\<forall>i < length (s_pqueries smp). \<forall>j < length (pq_placements (s_pqueries smp ! i)).
              p_tuple_entry doc i j 3 =
                Some (JsonValueNumber
                  (branch_length
                     (t_edges (s_tree smp) ! pl_edge (pq_placements (s_pqueries smp ! i) ! j)) -
                   proximal_length (pq_placements (s_pqueries smp ! i) ! j))))"
proof -
  obtain doc where doc: "to_document ev smp = Inr doc"
    using to_document_returns [OF assms] by blast
  have "map_of doc ''fields'' = Some jfields"
    and version: "map_of doc ''version'' = Some (JsonValueNumber (int_to_double ev 3))"
    using doc unfolding to_document_returns [OF assms] by auto
  then have fields: "map_of doc ''fields'' =
             Some (JsonValueArray
               [JsonValueString ''edge_num'', JsonValueString ''likelihood'',
                JsonValueString ''like_weight_ratio'', JsonValueString ''distal_length'',
                JsonValueString ''pendant_length''])"
    by (simp add: jfields_def)
  have distal: "p_tuple_entry doc i j 3 =
                Some (JsonValueNumber
                  (branch_length
                     (t_edges (s_tree smp) ! pl_edge (pq_placements (s_pqueries smp ! i) ! j)) -
                   proximal_length (pq_placements (s_pqueries smp ! i) ! j)))"
    if i: "i < length (s_pqueries smp)" and j: "j < length (pq_placements (s_pqueries smp ! i))"
    for i j
  proof -
    note obj = pquery_object_to_document [OF assms doc i]
    show ?thesis
      using j by (simp add: p_tuple_entry_def obj(2) jpqry_returns [OF obj(1)] deref_def)
  qed
  from doc fields version distal show ?thesis by blast
qed

theorem to_document_fields_version_distal_witness:
  "sample_edges_ok example_sample \<and>
   (\<exists>doc. to_document example_env example_sample = Inr doc \<and>
      map_of doc ''version'' = Some (JsonValueNumber 3) \<and>
      p_tuple_entry doc 0 1 3 = Some (JsonValueNumber 3) \<and>
      p_tuple_entry doc 1 0 3 = Some (JsonValueNumber 0))"
proof -
  from to_document_fields_version_distal [OF example_sample_edges_ok, of example_env]
  obtain doc where doc: "to_document example_env example_sample = Inr doc"
    and version: "map_of doc ''version'' = Some (JsonValueNumber (int_to_double example_env 3))"
    and distal: "\<And>i j. i < length (s_pqueries example_sample) \<Longrightarrow>
        j < length (pq_placements (s_pqueries example_sample ! i)) \<Longrightarrow>
        p_tuple_entry doc i j 3 =
          Some (JsonValueNumber
            (branch_length
               (t_edges (s_tree example_sample) !
                  pl_edge (pq_placements (s_pqueries example_sample ! i) ! j)) -
             proximal_length (pq_placements (s_pqueries example_sample ! i) ! j)))"
    by blast
  have "map_of doc ''version'' = Some (JsonValueNumber 3)"
    using version by (simp add: example_env_def)
  moreover have "p_tuple_entry doc 0 1 3 = Some (JsonValueNumber 3)"
    using distal [of 0 1] by (simp add: example_sample_def star_tree_def)
  moreover have "p_tuple_entry doc 1 0 3 = Some (JsonValueNumber 0)"
    using distal [of 1 0] by (simp add: example_sample_def star_tree_def)
  ultimately show ?thesis
    using doc example_sample_edges_ok by blast
qed

text \<open>
  Claim C10. For every pquery of a Sample whose placements refer to edges of its tree, the
  object that the writer emits has the key \<^verbatim>\<open>nm\<close>, with every name as a pair of name and
  multiplicity, exactly when some name of the pquery has a multiplicity other than 0, and then
  no key \<^verbatim>\<open>n\<close>; otherwise it has the key \<^verbatim>\<open>n\<close> with the bare names and no key \<^verbatim>\<open>nm\<close>.
\<close>

theorem to_document_nm_or_n:
  assumes "sample_edges_ok smp" "i < length (s_pqueries smp)"
  shows "\<exists>doc obj. to_document ev smp = Inr doc \<and> pquery_object doc i = Some obj \<and>
           (if \<exists>n \<in> set (pq_names (s_pqueries smp ! i)). multiplicity n \<noteq> 0
            then member_of ''nm'' obj =
                   Some (JsonValueArray
                     (map (\<lambda>n. JsonValueArray
                              [JsonValueString (pn_name n), JsonValueNumber (multiplicity n)])
                        (pq_names (s_pqueries smp ! i)))) \<and>
                 member_of ''n'' obj = None
            else member_of ''n'' obj =
                   Some (JsonValueArray
                     (map (\<lambda>n. JsonValueString (pn_name n)) (pq_names (s_pqueries smp ! i)))) \<and>
                 member_of ''nm'' obj = None)"
proof -
  obtain doc where doc: "to_document ev smp = Inr doc"
    using to_document_returns [OF assms(1)] by blast
  note obj = pquery_object_to_document [OF assms(1) doc assms(2)]
  show ?thesis
    using doc obj(2)
    by (simp add: jpqry_returns [OF obj(1)] has_nm_iff pqry_nm_arr_def pqry_n_arr_def)
qed

theorem to_document_nm_or_n_witness:
  "sample_edges_ok example_sample \<and>
   (\<exists>doc obj0 obj1. to_document example_env example_sample = Inr doc \<and>
      pquery_object doc 0 = Some obj0 \<and>
      member_of ''nm'' obj0 =
        Some (JsonValueArray [JsonValueArray [JsonValueString ''q1'', JsonValueNumber 2]]) \<and>
      member_of ''n'' obj0 = None \<and>
      pquery_object doc 1 = Some obj1 \<and>
      member_of ''n'' obj1 = Some (JsonValueArray [JsonValueString ''q2'']) \<and>
      member_of ''nm'' obj1 = None)"
proof -
  have l: "0 < length (s_pqueries example_sample)" "1 < length (s_pqueries example_sample)"
    by (simp_all add: example_sample_def)
  from to_document_nm_or_n [OF example_sample_edges_ok l(1), of example_env]
  obtain doc obj0 where doc: "to_document example_env example_sample = Inr doc"
    and obj0: "pquery_object doc 0 = Some obj0"
      "member_of ''nm'' obj0 =
        Some (JsonValueArray [JsonValueArray [JsonValueString ''q1'', JsonValueNumber 2]]) \<and>
       member_of ''n'' obj0 = None"
    by (auto simp: example_sample_def)
  from to_document_nm_or_n [OF example_sample_edges_ok l(2), of example_env] doc
  obtain obj1 where obj1: "pquery_object doc 1 = Some obj1"
      "member_of ''n'' obj1 = Some (JsonValueArray [JsonValueString ''q2'']) \<and>
       member_of ''nm'' obj1 = None"
    by (auto simp: example_sample_def)
  from doc obj0 obj1 example_sample_edges_ok show ?thesis by blast
qed

text \<open>
  Claim C8. When a file with the name exists, \<^verbatim>\<open>to_file\<close> returns false and leaves the file
  system, and so the file, as it is. When there is none, it hands the string of the document of
  the Sample to \<^verbatim>\<open>file_write\<close> for this name and returns what \<^verbatim>\<open>file_write\<close> returns.
\<close>

theorem to_file_keeps_existing_file:
  "(file_exists ev fs filename \<longrightarrow> to_file ev fs smp filename = Inr (False, fs)) \<and>
   (\<not> file_exists ev fs filename \<and> sample_edges_ok smp \<longrightarrow>
      (\<exists>doc. to_document ev smp = Inr doc \<and>
         to_file ev fs smp filename = Inr (file_write ev filename (json_to_string ev doc) fs)))"
proof (intro conjI impI)
  assume "file_exists ev fs filename"
  then show "to_file ev fs smp filename = Inr (False, fs)"
    by (simp add: to_file_def)
next
  assume a: "\<not> file_exists ev fs filename \<and> sample_edges_ok smp"
  then obtain doc where doc: "to_document ev smp = Inr doc"
    using to_document_returns [of smp ev] by blast
  with a have "to_file ev fs smp filename = Inr (file_write ev filename (json_to_string ev doc) fs)"
    by (simp add: to_file_def to_string_def)
  with doc show "\<exists>doc. to_document ev smp = Inr doc \<and>
      to_file ev fs smp filename = Inr (file_write ev filename (json_to_string ev doc) fs)"
    by blast
qed

theorem to_file_keeps_existing_file_witness:
  "file_exists example_env [(''a.jplace'', ''old'')] ''a.jplace'' \<and>
   to_file example_env [(''a.jplace'', ''old'')] example_sample ''a.jplace'' =
     Inr (False, [(''a.jplace'', ''old'')]) \<and>
   \<not> file_exists example_env [(''a.jplace'', ''old'')] ''b.jplace'' \<and>
   sample_edges_ok example_sample \<and>
   to_file example_env [(''a.jplace'', ''old'')] example_sample ''b.jplace'' =
     Inr (True, [(''a.jplace'', ''old''),
                 (''b.jplace'', ''treeplacementsfieldsversionmetadata'')])"
proof -
  let ?fs = "[(''a.jplace'', ''old'')]"
  have a: "file_exists example_env ?fs ''a.jplace''"
    and b: "\<not> file_exists example_env ?fs ''b.jplace''"
    by (simp_all add: example_env_def)
  from to_file_keeps_existing_file [of example_env ?fs "''a.jplace''" example_sample] a
  have old: "to_file example_env ?fs example_sample ''a.jplace'' = Inr (False, ?fs)"
    by blast
  from to_file_keeps_existing_file [of example_env ?fs "''b.jplace''" example_sample]
    b example_sample_edges_ok
  obtain doc where doc: "to_document example_env example_sample = Inr doc"
    and new: "to_file example_env ?fs example_sample ''b.jplace'' =
      Inr (file_write example_env ''b.jplace'' (json_to_string example_env doc) ?fs)"
    by blast
  have "json_to_string example_env doc = ''treeplacementsfieldsversionmetadata''"
    using doc unfolding to_document_returns [OF example_sample_edges_ok]
    by (auto simp: example_env_def)
  with new have "to_file example_env ?fs example_sample ''b.jplace'' =
     Inr (True, [(''a.jplace'', ''old''),
                 (''b.jplace'', ''treeplacementsfieldsversionmetadata'')])"
    by (simp add: example_env_def)
  with a b old example_sample_edges_ok show ?thesis by blast
qed

subsection \<open>NodeDepthVector\<close>

text \<open>
  Claim C2 fails on the code. \<^verbatim>\<open>NodeDepthVector\<close> sets \<^verbatim>\<open>vec[0] = 0\<close>, the entry of the node
  with index 0, whatever the node it is given. On the tree \<^verbatim>\<open>(A,B,C)R;\<close>, which \<open>Validate\<close>
  accepts, and the leaf \<^verbatim>\<open>A\<close> with index 1: without assertions the result is
  \<open>[0, -1, 1, 1]\<close>, where the numbers of edges from \<^verbatim>\<open>A\<close> are \<open>[1, 0, 2, 2]\<close>, so the entry
  of \<^verbatim>\<open>A\<close> itself is negative and no entry is right; with assertions the
  \<^verbatim>\<open>assert(vec[it.Node()->Index()] == -1)\<close> fails at the root. With the root, which has
  index 0, the result is \<open>[0, 1, 1, 1]\<close>.
\<close>

theorem NodeDepthVector_from_leaf:
  "Validate (star_tree 2 3 5 :: int tree) = Some (Inr True) \<and>
   NodeDepthVector False (star_tree 2 3 5 :: int tree) (Some 1) = Some (Inr [0, - 1, 1, 1]) \<and>
   NodeDepthVector True (star_tree 2 3 5 :: int tree) (Some 1) = Some (Inl AssertionFailed) \<and>
   map (star_tree_edges_between 1) [0, 1, 2, 3] = [1, 0, 2, 2] \<and>
   NodeDepthVector True (star_tree 2 3 5 :: int tree) (Some 0) = Some (Inr [0, 1, 1, 1]) \<and>
   map (star_tree_edges_between 0) [0, 1, 2, 3] = [0, 1, 1, 1]"
proof -
  have "Validate (star_tree 2 3 5 :: int tree) = Some (Inr True)"
    by code_simp
  moreover have "NodeDepthVector False (star_tree 2 3 5 :: int tree) (Some 1) =
      Some (Inr [0, - 1, 1, 1])"
    by code_simp
  moreover have "NodeDepthVector True (star_tree 2 3 5 :: int tree) (Some 1) =
      Some (Inl AssertionFailed)"
    by code_simp
  moreover have "NodeDepthVector True (star_tree 2 3 5 :: int tree) (Some 0) =
      Some (Inr [0, 1, 1, 1])"
    by code_simp
  moreover have "map (star_tree_edges_between 1) [0, 1, 2, 3] = [1, 0, 2, 2]"
    "map (star_tree_edges_between 0) [0, 1, 2, 3] = [0, 1, 1, 1]"
    by (simp_all add: star_tree_edges_between_def)
  ultimately show ?thesis by simp
qed

subsection \<open>NodeDistanceMatrix\<close>

lemma square_get:
  "square n mat \<Longrightarrow> r < n \<Longrightarrow> c < n \<Longrightarrow> mat_get mat r c = Some (mat ! r ! c)"
  by (simp add: square_def mat_get_def deref_def list_all_length)

lemma square_set:
  assumes "square n mat" "r < n" "c < n"
  shows "mat_set mat r c x = Some (mat[r := (mat ! r)[c := x]])"
    and "square n (mat[r := (mat ! r)[c := x]])"
proof -
  from assms show "mat_set mat r c x = Some (mat[r := (mat ! r)[c := x]])"
    by (simp add: square_def mat_set_def list_all_length)
  from assms show "square n (mat[r := (mat ! r)[c := x]])"
    by (auto simp: square_def list_all_length nth_list_update)
qed

lemma reached_append: "reached t (xs @ ys) = reached t xs \<union> reached t ys"
  by (auto simp: reached_def)

lemma reached_single: "node_index_at t l = Some i \<Longrightarrow> reached t [l] = {i}"
  by (auto simp: reached_def)

lemma simple_path_loop: "simple_path t r r p \<Longrightarrow> p = []"
  by (cases p) (auto simp: simple_path_def path_nodes_def split: option.splits)

lemma simple_path_Cons:
  assumes "node_index_at t l = Some i" "outer_node_index_at t l = Some v"
    and "branch_length_at t l = Some len"
    and "simple_path t v r p" "i \<notin> set (path_nodes t p)" "i \<noteq> r"
  shows "simple_path t i r (l # p)"
    and "path_length t (l # p) = len + path_length t p"
    and "set (path_nodes t (l # p)) = insert i (set (path_nodes t p))"
  using assms by (simp_all add: simple_path_def path_nodes_def path_length_def)

text \<open>The invariant of the inner loop: the links \<open>pre\<close> are done, the links \<open>ls\<close> are to come.\<close>

lemma distance_steps_invariant:
  assumes "square n mat" "r < n"
    and "links_resolve t ls"
    and "distinct (map (node_index_at t) (pre @ ls))"
    and "reached t (pre @ ls) \<subseteq> {..<n}"
    and "start \<in> set pre" "r \<in> reached t pre"
    and "\<forall>k < length ls.
           outer_node_index_at t (ls ! k) \<in> set (map (node_index_at t) (pre @ take k ls))"
    and "row_done t r pre mat"
  shows "\<exists>mat'. for_each (distance_step t r start) ls mat = Inr mat' \<and> square n mat' \<and>
           (\<forall>r'. r' \<noteq> r \<longrightarrow> mat' ! r' = mat ! r') \<and> row_done t r (pre @ ls) mat'"
  using assms
proof (induction ls arbitrary: pre mat)
  case Nil
  then show ?case by simp
next
  case (Cons l ls)
  from Cons.prems(3) obtain i v len where l: "node_index_at t l = Some i"
      "outer_node_index_at t l = Some v" "branch_length_at t l = Some len"
    and res: "links_resolve t ls"
    by (auto simp: links_resolve_def)
  from Cons.prems(4) have fresh: "node_index_at t l \<notin> node_index_at t ` set pre"
    by auto
  with Cons.prems(6) have not_start: "l \<noteq> start"
    by auto
  from fresh l have i_new: "i \<notin> reached t pre"
    by (auto simp: reached_def)
  with Cons.prems(7) have i_r: "i \<noteq> r"
    by auto
  from Cons.prems(5) l have i_n: "i < n"
    by (auto simp: reached_def)
  from Cons.prems(8) [rule_format, of 0] l have v_pre: "v \<in> reached t pre"
    by (simp add: reached_def)
  with Cons.prems(5) have v_n: "v < n"
    by (auto simp: reached_append)
  from Cons.prems(9) v_pre obtain p where p: "simple_path t v r p"
      "set (path_nodes t p) \<subseteq> reached t pre" "mat ! r ! v = path_length t p"
    by (auto simp: row_done_def)
  define mat1 where "mat1 = mat[r := (mat ! r)[i := len + mat ! r ! v]]"
  have step: "distance_step t r start l mat = Inr mat1"
    using not_start l Cons.prems(1,2) i_n v_n
    by (simp add: distance_step_def square_get square_set(1) mat1_def)
  have sq1: "square n mat1"
    unfolding mat1_def using Cons.prems(1,2) i_n by (rule square_set(2))
  have len_r: "r < length mat" "i < length (mat ! r)"
    using Cons.prems(1,2) i_n by (simp_all add: square_def list_all_length)
  have others: "mat1 ! r' = mat ! r'" if "r' \<noteq> r" for r'
    using that by (simp add: mat1_def)
  have row1: "mat1 ! r ! j = (if j = i then len + mat ! r ! v else mat ! r ! j)" for j
    using len_r by (simp add: mat1_def nth_list_update)
  from p(2) i_new have i_path: "i \<notin> set (path_nodes t p)"
    by auto
  note ext = simple_path_Cons [OF l p(1) i_path i_r]
  have done1: "row_done t r (pre @ [l]) mat1"
    unfolding row_done_def
  proof
    fix j
    assume "j \<in> reached t (pre @ [l])"
    then consider "j = i" | "j \<in> reached t pre" "j \<noteq> i"
      using l by (auto simp: reached_append reached_single)
    then show "\<exists>q. simple_path t j r q \<and> set (path_nodes t q) \<subseteq> reached t (pre @ [l]) \<and>
        mat1 ! r ! j = path_length t q"
    proof cases
      case 1
      have "set (path_nodes t (l # p)) \<subseteq> reached t (pre @ [l])"
        using ext(3) p(2) l by (auto simp: reached_append reached_single)
      moreover have "mat1 ! r ! j = path_length t (l # p)"
        using 1 ext(2) p(3) by (simp add: row1)
      ultimately show ?thesis
        using 1 ext(1) by blast
    next
      case 2
      with Cons.prems(9) obtain q where q: "simple_path t j r q"
          "set (path_nodes t q) \<subseteq> reached t pre" "mat ! r ! j = path_length t q"
        by (auto simp: row_done_def)
      from q(2) have "set (path_nodes t q) \<subseteq> reached t (pre @ [l])"
        by (auto simp: reached_append)
      moreover have "mat1 ! r ! j = path_length t q"
        using 2 q(3) by (simp add: row1)
      ultimately show ?thesis
        using q(1) by blast
    qed
  qed
  have parents: "\<forall>k < length ls.
      outer_node_index_at t (ls ! k) \<in> set (map (node_index_at t) ((pre @ [l]) @ take k ls))"
  proof (intro allI impI)
    fix k
    assume "k < length ls"
    with Cons.prems(8) [rule_format, of "Suc k"]
    show "outer_node_index_at t (ls ! k) \<in> set (map (node_index_at t) ((pre @ [l]) @ take k ls))"
      by simp
  qed
  have "\<exists>mat'. for_each (distance_step t r start) ls mat1 = Inr mat' \<and> square n mat' \<and>
      (\<forall>r'. r' \<noteq> r \<longrightarrow> mat' ! r' = mat1 ! r') \<and> row_done t r ((pre @ [l]) @ ls) mat'"
  proof (rule Cons.IH [OF sq1 Cons.prems(2) res _ _ _ _ parents done1])
    show "distinct (map (node_index_at t) ((pre @ [l]) @ ls))"
      using Cons.prems(4) by simp
    show "reached t ((pre @ [l]) @ ls) \<subseteq> {..<n}"
      using Cons.prems(5) by simp
    show "start \<in> set (pre @ [l])"
      using Cons.prems(6) by simp
    show "r \<in> reached t (pre @ [l])"
      using Cons.prems(7) by (simp add: reached_append)
  qed
  then obtain mat' where "for_each (distance_step t r start) ls mat1 = Inr mat'" "square n mat'"
      "\<forall>r'. r' \<noteq> r \<longrightarrow> mat' ! r' = mat1 ! r'" "row_done t r (pre @ l # ls) mat'"
    by auto
  with step others show ?case
    by auto
qed

text \<open>One row: after the traversal from the node \<open>r\<close> the row \<open>r\<close> is right.\<close>

lemma distance_row_correct:
  assumes "square (length (t_nodes t)) mat" "n_index (t_nodes t ! r) = r"
    and "BeginLevelorder t (n_link (t_nodes t ! r)) = Some (Inr its)"
    and "levelorder_reaches_all t r its"
  shows "\<exists>mat'. distance_row t (t_nodes t ! r) mat = Some (Inr mat') \<and>
           square (length (t_nodes t)) mat' \<and>
           (\<forall>r'. r' \<noteq> r \<longrightarrow> mat' ! r' = mat ! r') \<and> row_correct t r mat'"
proof -
  let ?n = "length (t_nodes t)" and ?start = "n_link (t_nodes t ! r)"
  from assms(4) have a: "its \<noteq> []" "hd its = ?start" "node_index_at t (hd its) = Some r"
    "links_resolve t its" "distinct (map (node_index_at t) its)"
    and r: "r < ?n"
    and all: "set (map (node_index_at t) its) = set (map Some [0..<?n])"
    and par: "list_all (\<lambda>k. outer_node_index_at t (its ! k) \<in>
                set (map (node_index_at t) (take k its))) [1..<length its]"
    unfolding levelorder_reaches_all_def by blast+
  from a(1,2) obtain rest where its: "its = ?start # rest"
    by (cases its) auto
  from a(3) its have start: "node_index_at t ?start = Some r"
    by simp
  from a(4) its have res: "links_resolve t rest"
    by (simp add: links_resolve_def)
  from a(5) its have dist: "distinct (map (node_index_at t) ([?start] @ rest))"
    by simp
  define mat0 where "mat0 = mat[r := (mat ! r)[r := 0]]"
  have set0: "mat_set mat r r 0 = Some mat0" and sq0: "square ?n mat0"
    unfolding mat0_def using assms(1) r by (simp_all add: square_set)
  have range: "reached t ([?start] @ rest) \<subseteq> {..<?n}"
    using all its by (auto simp: reached_def)
  have parents: "\<forall>k < length rest.
      outer_node_index_at t (rest ! k) \<in> set (map (node_index_at t) ([?start] @ take k rest))"
  proof (intro allI impI)
    fix k
    assume "k < length rest"
    then have "Suc k \<in> {1..<length its}"
      using its by auto
    then have "Suc k \<in> set [1..<length its]"
      by (simp only: set_upt)
    with par have "outer_node_index_at t (its ! Suc k) \<in>
        set (map (node_index_at t) (take (Suc k) its))"
      by (simp only: list_all_iff)
    then show "outer_node_index_at t (rest ! k) \<in>
        set (map (node_index_at t) ([?start] @ take k rest))"
      using its by simp
  qed
  have "mat0 ! r ! r = 0"
    using assms(1) r by (simp add: mat0_def square_def list_all_length)
  then have done0: "row_done t r [?start] mat0"
    using start
    by (auto simp: row_done_def reached_single simple_path_def path_nodes_def path_length_def
        intro!: exI [of _ "[]"])
  have "r \<in> reached t [?start]"
    using start by (simp add: reached_single)
  with distance_steps_invariant [OF sq0 r res dist range _ _ parents done0, of ?start]
  obtain mat' where run: "for_each (distance_step t r ?start) rest mat0 = Inr mat'"
    and sq: "square ?n mat'" and others: "\<forall>r'. r' \<noteq> r \<longrightarrow> mat' ! r' = mat0 ! r'"
    and fin: "row_done t r ([?start] @ rest) mat'"
    by auto
  have "for_each (distance_step t r ?start) its mat0 = Inr mat'"
    using run its by (simp add: distance_step_def)
  then have "distance_row t (t_nodes t ! r) mat = Some (Inr mat')"
    using assms(2,3) set0 by (simp add: distance_row_def)
  moreover have "\<forall>r'. r' \<noteq> r \<longrightarrow> mat' ! r' = mat ! r'"
    using others by (simp add: mat0_def)
  moreover have "row_correct t r mat'"
    unfolding row_correct_def
  proof (intro allI impI)
    fix u
    assume "u < ?n"
    then have "Some u \<in> set (map (node_index_at t) its)"
      unfolding all by simp
    then have "u \<in> reached t ([?start] @ rest)"
      using its by (simp add: reached_def)
    with fin show "\<exists>p. simple_path t u r p \<and> mat' ! r ! u = path_length t p"
      by (auto simp: row_done_def)
  qed
  ultimately show ?thesis
    using sq by blast
qed

text \<open>The outer loop: the rows of the nodes before position \<open>k\<close> are right and stay so.\<close>

lemma distance_rows_correct:
  assumes "valid_tree t" "k \<le> length (t_nodes t)" "square (length (t_nodes t)) mat"
    and "\<forall>r < k. row_correct t r mat"
  shows "\<exists>mat'. distance_rows t (drop k (t_nodes t)) mat = Some (Inr mat') \<and>
           square (length (t_nodes t)) mat' \<and>
           (\<forall>r < length (t_nodes t). row_correct t r mat')"
  using assms(2-)
proof (induction "length (t_nodes t) - k" arbitrary: k mat)
  case 0
  then show ?case by simp
next
  case (Suc d)
  let ?n = "length (t_nodes t)"
  from Suc.hyps(2) have k: "k < ?n"
    by simp
  then have split: "drop k (t_nodes t) = t_nodes t ! k # drop (Suc k) (t_nodes t)"
    by (simp add: Cons_nth_drop_Suc)
  from assms(1) k have idx: "n_index (t_nodes t ! k) = k"
    by (simp add: valid_tree_def wrong_index_None)
  from assms(1) k have "levelorder_ok t k"
    by (simp add: valid_tree_def list_all_iff)
  then obtain its where its: "BeginLevelorder t (n_link (t_nodes t ! k)) = Some (Inr its)"
      "levelorder_reaches_all t k its"
    by (auto simp: levelorder_ok_def split: option.splits sum.splits)
  from distance_row_correct [OF Suc.prems(2) idx its]
  obtain mat1 where row: "distance_row t (t_nodes t ! k) mat = Some (Inr mat1)"
    and sq1: "square ?n mat1" and others: "\<forall>r'. r' \<noteq> k \<longrightarrow> mat1 ! r' = mat ! r'"
    and rk: "row_correct t k mat1"
    by auto
  have before: "\<forall>r < Suc k. row_correct t r mat1"
  proof (intro allI impI)
    fix r
    assume "r < Suc k"
    then consider "r = k" | "r < k" by linarith
    then show "row_correct t r mat1"
    proof cases
      case 1
      with rk show ?thesis by simp
    next
      case 2
      with others have "mat1 ! r = mat ! r" by simp
      with Suc.prems(3) 2 show ?thesis
        by (simp add: row_correct_def)
    qed
  qed
  have "\<exists>mat'. distance_rows t (drop (Suc k) (t_nodes t)) mat1 = Some (Inr mat') \<and>
      square ?n mat' \<and> (\<forall>r < ?n. row_correct t r mat')"
    using Suc.hyps(2) k by (intro Suc.hyps(1) sq1 before) simp_all
  with row split show ?case
    by simp
qed

text \<open>
  Claim C6. For every valid non-empty tree, \<open>NodeDistanceMatrix\<close> returns a square matrix,
  indexed by the node indices, whose entry for the nodes \<open>i\<close> and \<open>j\<close> is the sum of the branch
  lengths of the edges of a simple path between them, and whose diagonal entries are 0.
\<close>

theorem NodeDistanceMatrix_path_lengths:
  assumes "valid_tree t"
  shows "\<exists>mat. NodeDistanceMatrix t = Some (Inr mat) \<and>
           length mat = length (t_nodes t) \<and>
           (\<forall>i < length (t_nodes t). length (mat ! i) = length (t_nodes t)) \<and>
           (\<forall>i < length (t_nodes t). \<forall>j < length (t_nodes t).
              \<exists>p. simple_path t j i p \<and> mat ! i ! j = path_length t p) \<and>
           (\<forall>i < length (t_nodes t). mat ! i ! i = 0)"
proof -
  let ?n = "length (t_nodes t)"
  have "square ?n (Matrix_new ?n ?n :: 'a list list)"
    by (simp add: square_def Matrix_new_def list_all_length)
  with distance_rows_correct [OF assms, of 0 "Matrix_new ?n ?n"]
  obtain mat where mat: "NodeDistanceMatrix t = Some (Inr mat)" and sq: "square ?n mat"
    and rows: "\<forall>r < ?n. row_correct t r mat"
    by (auto simp: NodeDistanceMatrix_def)
  have paths: "\<exists>p. simple_path t j i p \<and> mat ! i ! j = path_length t p"
    if "i < ?n" "j < ?n" for i j
    using rows that by (simp add: row_correct_def)
  have "mat ! i ! i = 0" if "i < ?n" for i
  proof -
    from paths [OF that that] obtain p where "simple_path t i i p" "mat ! i ! i = path_length t p"
      by blast
    then show ?thesis
      using simple_path_loop [of t i p] by (simp add: path_length_def)
  qed
  with mat sq paths show ?thesis
    by (simp add: square_def list_all_length)
qed

theorem NodeDistanceMatrix_path_lengths_witness:
  "valid_tree nested_tree \<and>
   NodeDistanceMatrix nested_tree =
     Some (Inr [[0, 1, 3, 4, 4], [1, 0, 2, 3, 5], [3, 2, 0, 5, 7], [4, 3, 5, 0, 8],
                [4, 5, 7, 8, 0]]) \<and>
   (\<exists>p. simple_path nested_tree 4 2 p \<and> path_length nested_tree p = 7) \<and>
   simple_path nested_tree 4 2 [7, 0, 3] \<and> path_length nested_tree [7, 0, 3] = 7"
proof -
  have v: "valid_tree nested_tree"
    by code_simp
  have m: "NodeDistanceMatrix nested_tree =
     Some (Inr [[0, 1, 3, 4, 4], [1, 0, 2, 3, 5], [3, 2, 0, 5, 7], [4, 3, 5, 0, 8],
                [4, 5, 7, 8, 0]])"
    by code_simp
  have n: "length (t_nodes nested_tree) = 5"
    by (simp add: nested_tree_def)
  from NodeDistanceMatrix_path_lengths [OF v] m n
  have "\<forall>i < 5. \<forall>j < 5. \<exists>p. simple_path nested_tree j i p \<and>
      [[0, 1, 3, 4, 4], [1, 0, 2, 3, 5], [3, 2, 0, 5, 7], [4, 3, 5, 0, 8], [4, 5, 7, 8, 0 :: int]]
        ! i ! j = path_length nested_tree p"
    by simp
  from this [rule_format, of 2 4]
  have "\<exists>p. simple_path nested_tree 4 2 p \<and> path_length nested_tree p = 7"
    by simp
  moreover have "simple_path nested_tree 4 2 [7, 0, 3] \<and> path_length nested_tree [7, 0, 3] = 7"
    by code_simp
  ultimately show ?thesis
    using v m by blast
qed

subsection \<open>Merge\<close>

text \<open>
  Claim C4. When \<^verbatim>\<open>HasIdenticalTopology\<close> is false for the trees of two Samples, \<^verbatim>\<open>Merge\<close>
  returns false and leaves both Samples as they are: pqueries, trees and metadata.
\<close>

theorem Merge_topology_mismatch:
  assumes "HasIdenticalTopology po (s_tree this) (s_tree other) = Some False"
  shows "\<exists>this' other'. Merge po this other = Some (Inr (False, this', other')) \<and>
           this' = this \<and> other' = other \<and>
           s_pqueries this' = s_pqueries this \<and> s_pqueries other' = s_pqueries other \<and>
           length (s_pqueries this') = length (s_pqueries this) \<and>
           length (s_pqueries other') = length (s_pqueries other) \<and>
           s_tree this' = s_tree this \<and> s_tree other' = s_tree other \<and>
           s_metadata this' = s_metadata this \<and> s_metadata other' = s_metadata other"
  using assms by (simp add: Merge_def)

theorem Merge_topology_mismatch_witness:
  "HasIdenticalTopology example_preorder (s_tree example_sample) (s_tree nested_sample) =
     Some False \<and>
   Merge example_preorder example_sample nested_sample =
     Some (Inr (False, example_sample, nested_sample)) \<and>
   HasIdenticalTopology example_preorder (s_tree example_sample) (s_tree other_sample) =
     Some True \<and>
   (\<exists>merged. Merge example_preorder example_sample other_sample =
      Some (Inr (True, merged, other_sample\<lparr>s_pqueries := []\<rparr>)) \<and>
      length (s_pqueries merged) = 3)"
proof -
  have d: "HasIdenticalTopology example_preorder (s_tree example_sample) (s_tree nested_sample) =
      Some False"
    by (simp add: HasIdenticalTopology_def Equal_def example_sample_def nested_sample_def
        star_tree_def nested_tree_def)
  from Merge_topology_mismatch [OF d]
  have m: "Merge example_preorder example_sample nested_sample =
      Some (Inr (False, example_sample, nested_sample))"
    by simp
  have s: "HasIdenticalTopology example_preorder (s_tree example_sample) (s_tree other_sample) =
      Some True"
    by code_simp
  have "Merge example_preorder example_sample other_sample =
      Some (Inr (True,
        example_sample\<lparr>s_pqueries := s_pqueries example_sample @ s_pqueries other_sample,
                       s_metadata := [(''invocation'', ''place'')]\<rparr>,
        other_sample\<lparr>s_pqueries := []\<rparr>))"
    by code_simp
  then have "\<exists>merged. Merge example_preorder example_sample other_sample =
      Some (Inr (True, merged, other_sample\<lparr>s_pqueries := []\<rparr>)) \<and>
      length (s_pqueries merged) = 3"
    by (simp add: example_sample_def other_sample_def)
  with d m s show ?thesis by blast
qed

subsection \<open>Earth mover's distance\<close>

text \<open>The traversal reads the links of the tree only.\<close>

lemma push_back_children_links_Some:
  fixes ta tb :: "'d tree"
  assumes "push_back_children ta link c queue = Some r" "t_links ta = t_links tb"
  shows "push_back_children tb link c queue = Some r"
proof -
  have "\<forall>tb :: 'd tree. t_links ta = t_links tb \<longrightarrow>
      push_back_children tb link c queue = Some r"
  proof (rule push_back_children.raw_induct
      [where P = "\<lambda>ta link c queue r.
         \<forall>tb :: 'd tree. t_links ta = t_links tb \<longrightarrow> push_back_children tb link c queue = Some r",
       OF _ assms(1)])
    fix f :: "'d tree \<Rightarrow> nat \<Rightarrow> nat \<Rightarrow> nat list \<Rightarrow> (error + nat list) option"
      and ta link c queue r
    assume IH: "\<And>ta link c queue r. f ta link c queue = Some r \<Longrightarrow>
        \<forall>tb :: 'd tree. t_links ta = t_links tb \<longrightarrow>
          push_back_children tb link c queue = Some r"
      and body: "(if c = link then Some (Inr queue)
          else case deref (t_links ta) c of
                 None \<Rightarrow> Some (Inl BadPointer)
               | Some lk \<Rightarrow> f ta link (l_next lk) (queue @ [l_outer lk])) = Some r"
    show "\<forall>tb :: 'd tree. t_links ta = t_links tb \<longrightarrow>
        push_back_children tb link c queue = Some r"
    proof (intro allI impI)
      fix tb :: "'d tree"
      assume eq: "t_links ta = t_links tb"
      show "push_back_children tb link c queue = Some r"
      proof (cases "c = link")
        case True
        with body show ?thesis by (subst push_back_children.simps) simp
      next
        case False
        show ?thesis
        proof (cases "deref (t_links ta) c")
          case None
          with body False eq show ?thesis by (subst push_back_children.simps) simp
        next
          case (Some lk)
          with body False have "f ta link (l_next lk) (queue @ [l_outer lk]) = Some r"
            by simp
          with IH eq have "push_back_children tb link (l_next lk) (queue @ [l_outer lk]) = Some r"
            by blast
          with Some False eq show ?thesis by (subst push_back_children.simps) simp
        qed
      qed
    qed
  qed
  with assms(2) show ?thesis by blast
qed

lemma push_back_children_links:
  fixes ta tb :: "'d tree"
  assumes "t_links ta = t_links tb"
  shows "push_back_children ta link c queue = push_back_children tb link c queue"
proof (cases "push_back_children ta link c queue")
  case (Some r)
  with push_back_children_links_Some [OF Some assms] show ?thesis by simp
next
  case None
  show ?thesis
  proof (cases "push_back_children tb link c queue")
    case (Some r)
    from push_back_children_links_Some [OF Some assms [symmetric]] None show ?thesis by simp
  next
    case None': None
    with None show ?thesis by simp
  qed
qed


lemma levelorder_visit_links_Some:
  fixes ta tb :: "'d tree"
  assumes "levelorder_visit ta queue visited = Some r" "t_links ta = t_links tb"
  shows "levelorder_visit tb queue visited = Some r"
proof -
  have "\<forall>tb :: 'd tree. t_links ta = t_links tb \<longrightarrow>
      levelorder_visit tb queue visited = Some r"
  proof (rule levelorder_visit.raw_induct
      [where P = "\<lambda>ta queue visited r.
         \<forall>tb :: 'd tree. t_links ta = t_links tb \<longrightarrow>
           levelorder_visit tb queue visited = Some r",
       OF _ assms(1)])
    fix f :: "'d tree \<Rightarrow> nat list \<Rightarrow> nat list \<Rightarrow> (error + nat list) option"
      and ta queue visited r
    assume IH: "\<And>ta queue visited r. f ta queue visited = Some r \<Longrightarrow>
        \<forall>tb :: 'd tree. t_links ta = t_links tb \<longrightarrow>
          levelorder_visit tb queue visited = Some r"
      and body: "(case queue of
            [] \<Rightarrow> Some (Inr visited)
          | link # rest \<Rightarrow>
              (case deref (t_links ta) link of
                 None \<Rightarrow> Some (Inl BadPointer)
               | Some lk \<Rightarrow>
                   Option.bind (push_back_children ta link (l_next lk) rest)
                     (\<lambda>r. case r of
                            Inl e \<Rightarrow> Some (Inl e)
                          | Inr queue' \<Rightarrow> f ta queue' (visited @ [link])))) = Some r"
    show "\<forall>tb :: 'd tree. t_links ta = t_links tb \<longrightarrow>
        levelorder_visit tb queue visited = Some r"
    proof (intro allI impI)
      fix tb :: "'d tree"
      assume eq: "t_links ta = t_links tb"
      show "levelorder_visit tb queue visited = Some r"
      proof (cases queue)
        case Nil
        with body show ?thesis by (subst levelorder_visit.simps) simp
      next
        case (Cons link rest)
        show ?thesis
        proof (cases "deref (t_links ta) link")
          case None
          with body Cons eq show ?thesis by (subst levelorder_visit.simps) simp
        next
          case (Some lk)
          note pbc = push_back_children_links [OF eq, of link "l_next lk" rest]
          show ?thesis
          proof (cases "push_back_children ta link (l_next lk) rest")
            case None
            with body Cons Some show ?thesis by simp
          next
            case children: (Some q)
            show ?thesis
            proof (cases q)
              case (Inl e)
              with body Cons Some children have "r = Inl e"
                by simp
              with Cons Some children Inl pbc eq show ?thesis
                by (subst levelorder_visit.simps) simp
            next
              case (Inr queue')
              with body Cons Some children have "f ta queue' (visited @ [link]) = Some r"
                by simp
              with IH eq have "levelorder_visit tb queue' (visited @ [link]) = Some r"
                by blast
              with Cons Some children Inr pbc eq show ?thesis
                by (subst levelorder_visit.simps) simp
            qed
          qed
        qed
      qed
    qed
  qed
  with assms(2) show ?thesis by blast
qed

lemma levelorder_visit_links:
  fixes ta tb :: "'d tree"
  assumes "t_links ta = t_links tb"
  shows "levelorder_visit ta queue visited = levelorder_visit tb queue visited"
proof (cases "levelorder_visit ta queue visited")
  case (Some r)
  with levelorder_visit_links_Some [OF Some assms] show ?thesis by simp
next
  case None
  show ?thesis
  proof (cases "levelorder_visit tb queue visited")
    case (Some r)
    from levelorder_visit_links_Some [OF Some assms [symmetric]] None show ?thesis by simp
  next
    case None': None
    with None show ?thesis by simp
  qed
qed

lemma BeginLevelorder_links:
  fixes ta tb :: "'d tree"
  assumes "t_links ta = t_links tb"
  shows "BeginLevelorder ta start = BeginLevelorder tb start"
  unfolding BeginLevelorder_def
  by (simp add: assms push_back_children_links [OF assms] levelorder_visit_links [OF assms]
      cong: option.case_cong sum.case_cong)

lemma same_topology_reads:
  fixes ta tb :: "'d tree"
  assumes "same_topology ta tb"
  shows "edge_at ta = edge_at tb" "node_index_at ta = node_index_at tb"
    "outer_node_index_at ta = outer_node_index_at tb"
proof -
  from assms have l: "t_links ta = t_links tb"
    and n: "map n_index (t_nodes ta) = map n_index (t_nodes tb)"
    by (simp_all add: same_topology_def)
  from n have len: "length (t_nodes ta) = length (t_nodes tb)"
    by (rule map_eq_imp_length_eq)
  have idx: "map_option n_index (deref (t_nodes ta) k) = map_option n_index (deref (t_nodes tb) k)"
    for k
  proof (cases "k < length (t_nodes ta)")
    case True
    then have "map n_index (t_nodes ta) ! k = map n_index (t_nodes tb) ! k"
      using n by simp
    with True len show ?thesis by (simp add: deref_def)
  next
    case False
    with len show ?thesis by (simp add: deref_def)
  qed
  show "edge_at ta = edge_at tb"
    by (simp add: fun_eq_iff edge_at_def l)
  show ni: "node_index_at ta = node_index_at tb"
    by (simp add: fun_eq_iff node_index_at_def l idx)
  show "outer_node_index_at ta = outer_node_index_at tb"
    by (simp add: fun_eq_iff outer_node_index_at_def l ni)
qed

lemma same_branch_lengths_reads:
  fixes ta tb :: "'d tree"
  assumes "same_topology ta tb" "same_branch_lengths ta tb"
  shows "branch_length_at ta = branch_length_at tb"
proof -
  from assms have l: "t_links ta = t_links tb"
    and b: "map branch_length (t_edges ta) = map branch_length (t_edges tb)"
    by (simp_all add: same_topology_def same_branch_lengths_def)
  from b have len: "length (t_edges ta) = length (t_edges tb)"
    by (rule map_eq_imp_length_eq)
  have "map_option branch_length (deref (t_edges ta) k) =
      map_option branch_length (deref (t_edges tb) k)" for k
  proof (cases "k < length (t_edges ta)")
    case True
    then have "map branch_length (t_edges ta) ! k = map branch_length (t_edges tb) ! k"
      using b by simp
    with True len show ?thesis by (simp add: deref_def)
  next
    case False
    with len show ?thesis by (simp add: deref_def)
  qed
  then show ?thesis
    by (simp add: fun_eq_iff branch_length_at_def l)
qed

lemma signed_mass_self: "signed_mass a a e = 0"
  by (simp add: signed_mass_def)

text \<open>Negating every mass negates what arrives at the nodes and keeps the distance.\<close>

lemma emd_step_negated:
  "emd_step t (\<lambda>e. - mass e) l (\<lambda>v. - bal v, d) =
     (case emd_step t mass l (bal, d) of
        Inl err \<Rightarrow> Inl err
      | Inr st \<Rightarrow> Inr (\<lambda>v. - fst st v, snd st))"
  by (auto simp: emd_step_def Let_def fun_eq_iff split: option.splits)

lemma for_each_emd_negated:
  "for_each (emd_step t (\<lambda>e. - mass e)) ls (\<lambda>v. - bal v, d) =
     (case for_each (emd_step t mass) ls (bal, d) of
        Inl err \<Rightarrow> Inl err
      | Inr st \<Rightarrow> Inr (\<lambda>v. - fst st v, snd st))"
proof (induction ls arbitrary: bal d)
  case Nil
  show ?case by simp
next
  case (Cons l ls)
  show ?case
  proof (cases "emd_step t mass l (bal, d)")
    case (Inl err)
    then show ?thesis by (simp add: emd_step_negated)
  next
    case (Inr st)
    obtain bal' d' where st: "st = (bal', d')" by (cases st)
    from Inr st show ?thesis
      by (simp add: emd_step_negated Cons.IH)
  qed
qed

lemma emd_step_same_tree:
  fixes ta tb :: "real tree"
  assumes "same_topology ta tb" "same_branch_lengths ta tb"
  shows "emd_step ta = emd_step tb"
  by (simp add: fun_eq_iff emd_step_def same_topology_reads [OF assms(1)]
      same_branch_lengths_reads [OF assms])

lemma EMD_swap:
  assumes "same_topology (s_tree a) (s_tree b)" "same_branch_lengths (s_tree a) (s_tree b)"
  shows "EMD b a = EMD a b"
proof -
  from assms(1) have l: "t_links (s_tree b) = t_links (s_tree a)"
    by (simp add: same_topology_def)
  have lo: "BeginLevelorder (s_tree b) 0 = BeginLevelorder (s_tree a) 0"
    by (rule BeginLevelorder_links [OF l])
  have st: "emd_step (s_tree b) = emd_step (s_tree a)"
    by (rule emd_step_same_tree [OF assms, symmetric])
  have m: "signed_mass b a = (\<lambda>e. - signed_mass a b e)"
    by (simp add: fun_eq_iff signed_mass_def)
  have "for_each (emd_step t (signed_mass b a)) ls (\<lambda>v. 0, 0) =
     (case for_each (emd_step t (signed_mass a b)) ls (\<lambda>v. 0, 0) of
        Inl err \<Rightarrow> Inl err
      | Inr st \<Rightarrow> Inr (\<lambda>v. - fst st v, snd st))" for t ls
    using for_each_emd_negated [of t "signed_mass a b" ls "\<lambda>v. 0" 0] by (simp add: m)
  then have "(case for_each (emd_step (s_tree a) (signed_mass b a)) (rev (tl its)) (\<lambda>v. 0, 0) of
                Inl e \<Rightarrow> Some (Inl e)
              | Inr st \<Rightarrow> Some (Inr (snd st))) =
             (case for_each (emd_step (s_tree a) (signed_mass a b)) (rev (tl its)) (\<lambda>v. 0, 0) of
                Inl e \<Rightarrow> Some (Inl e)
              | Inr st \<Rightarrow> Some (Inr (snd st)))" for its
    by (simp split: sum.splits)
  then show ?thesis
    unfolding EMD_def EMD_on_def l lo st
    by (cases "BeginLevelorder (s_tree a) 0") (auto split: sum.splits)
qed

text \<open>Without mass on the edges nothing arrives at any node and the distance stays 0.\<close>

lemma for_each_emd_no_mass:
  assumes "links_resolve t ls"
    and "\<And>l e. l \<in> set ls \<Longrightarrow> edge_at t l = Some e \<Longrightarrow> mass e = 0"
  shows "for_each (emd_step t mass) ls (\<lambda>v. 0, 0) = Inr (\<lambda>v. 0, 0)"
  using assms
proof (induction ls)
  case Nil
  show ?case by simp
next
  case (Cons l ls)
  from Cons.prems(1) obtain e v u len where r: "edge_at t l = Some e" "node_index_at t l = Some v"
      "outer_node_index_at t l = Some u" "branch_length_at t l = Some len"
    by (auto simp: links_resolve_def)
  with Cons.prems(2) [of l e] have "mass e = 0" by simp
  with r have "emd_step t mass l (\<lambda>v. 0, 0) = Inr (\<lambda>v. 0, 0)"
    by (simp add: emd_step_def fun_eq_iff)
  moreover have "for_each (emd_step t mass) ls (\<lambda>v. 0, 0) = Inr (\<lambda>v. 0, 0)"
  proof (rule Cons.IH)
    show "links_resolve t ls"
      using Cons.prems(1) by (simp add: links_resolve_def)
    show "mass e = 0" if "l \<in> set ls" "edge_at t l = Some e" for l e
      using that Cons.prems(2) [of l e] by simp
  qed
  ultimately show ?case by simp
qed

text \<open>The distance never decreases when no branch length is negative.\<close>

lemma for_each_emd_mono:
  assumes "for_each (emd_step t mass) ls (bal, d) = Inr (bal', d')"
    and "\<And>l len. l \<in> set ls \<Longrightarrow> branch_length_at t l = Some len \<Longrightarrow> 0 \<le> len"
  shows "d \<le> d'"
  using assms
proof (induction ls arbitrary: bal d)
  case Nil
  then show ?case by simp
next
  case (Cons l ls)
  from Cons.prems(1) obtain bal1 d1 where step: "emd_step t mass l (bal, d) = Inr (bal1, d1)"
    and rest: "for_each (emd_step t mass) ls (bal1, d1) = Inr (bal', d')"
    by (cases "emd_step t mass l (bal, d)") auto
  from step obtain e v len where "branch_length_at t l = Some len"
    and d1: "d1 = d + \<bar>bal v + mass e\<bar> * len"
    by (auto simp: emd_step_def Let_def split: option.splits)
  with Cons.prems(2) [of l len] have "d \<le> d1" by simp
  moreover have "d1 \<le> d'"
  proof (rule Cons.IH [OF rest])
    show "0 \<le> len" if "l \<in> set ls" "branch_length_at t l = Some len" for l len
      using that Cons.prems(2) [of l len] by simp
  qed
  ultimately show ?case by simp
qed

text \<open>
  When the branch lengths are positive and the distance ends at 0, it started at 0 and no edge
  on the way has mass.
\<close>

lemma for_each_emd_zero:
  assumes "for_each (emd_step t mass) ls (\<lambda>v. 0, 0) = Inr (bal', 0)"
    and "\<And>l len. l \<in> set ls \<Longrightarrow> branch_length_at t l = Some len \<Longrightarrow> 0 < len"
    and "l \<in> set ls" "edge_at t l = Some e"
  shows "mass e = 0"
  using assms
proof (induction ls)
  case Nil
  then show ?case by simp
next
  case (Cons k ls)
  from Cons.prems(1) obtain bal1 d1 where step: "emd_step t mass k (\<lambda>v. 0, 0) = Inr (bal1, d1)"
    and rest: "for_each (emd_step t mass) ls (bal1, d1) = Inr (bal', 0)"
    by (cases "emd_step t mass k (\<lambda>v. 0, 0)") auto
  from step obtain ek u len where k: "edge_at t k = Some ek" "branch_length_at t k = Some len"
    and d1: "d1 = \<bar>mass ek\<bar> * len" and bal1: "bal1 = (\<lambda>v. 0)(u := mass ek)"
    by (auto simp: emd_step_def Let_def split: option.splits)
  from Cons.prems(2) [of k len] k have len: "0 < len" by simp
  have "d1 \<le> 0"
  proof (rule for_each_emd_mono [OF rest])
    fix l len
    assume "l \<in> set ls" "branch_length_at t l = Some len"
    with Cons.prems(2) [of l len] show "0 \<le> len" by simp
  qed
  moreover have "0 \<le> \<bar>mass ek\<bar> * len"
    using len by simp
  ultimately have "\<bar>mass ek\<bar> * len = 0"
    using d1 by simp
  with len have ek: "mass ek = 0" by simp
  with d1 bal1 have start: "d1 = 0" "bal1 = (\<lambda>v. 0)"
    by (simp_all add: fun_eq_iff)
  show ?case
  proof (cases "l = k")
    case True
    with Cons.prems(4) k ek show ?thesis by simp
  next
    case False
    with Cons.prems(3) have "l \<in> set ls" by simp
    moreover have "for_each (emd_step t mass) ls (\<lambda>v. 0, 0) = Inr (bal', 0)"
      using rest start by simp
    moreover have "0 < len" if "l \<in> set ls" "branch_length_at t l = Some len" for l len
      using that Cons.prems(2) [of l len] by simp
    ultimately show ?thesis
      using Cons.prems(4) by (intro Cons.IH) blast+
  qed
qed

lemma star_tree_levelorder: "BeginLevelorder (star_tree a b c) 0 = Some (Inr [0, 3, 4, 5])"
  by (simp add: BeginLevelorder_def star_tree_def deref_def push_back_children.simps
      levelorder_visit.simps)

lemma star_tree_links_resolve: "links_resolve (star_tree a b c) [3, 4, 5]"
  by (simp add: links_resolve_def star_tree_def edge_at_def node_index_at_def
      outer_node_index_at_def branch_length_at_def deref_def)

lemma same_masses_iff:
  "same_masses a b \<longleftrightarrow> (\<forall>e < length (t_edges (s_tree a)). edge_mass a e = edge_mass b e)"
  by (auto simp: same_masses_def list_all_iff)

text \<open>
  Claim C3, as the model has it. For two Samples whose trees have the same topology and the
  same branch lengths, \<open>EMD a b\<close> equals \<open>EMD b a\<close>. When moreover the traversal of the tree
  from its first link returns and every link that it visits after the first resolves to its
  edge and nodes, then \<open>EMD a a\<close> is 0 and \<open>EMD a b\<close> is 0 whenever the two Samples have the
  same mass on every edge; and when in addition every branch length is positive and the
  traversal reaches every edge, \<open>EMD a b\<close> is 0 only when the two Samples have the same mass
  on every edge.
\<close>

theorem EMD_symmetric_zero:
  assumes "same_topology (s_tree a) (s_tree b)" "same_branch_lengths (s_tree a) (s_tree b)"
  shows "EMD a b = EMD b a \<and>
         (emd_traversal (s_tree a) its \<longrightarrow>
            EMD a a = Some (Inr 0) \<and>
            (same_masses a b \<longrightarrow> EMD a b = Some (Inr 0)) \<and>
            (positive_branch_lengths (s_tree a) \<and> reaches_every_edge (s_tree a) its \<and>
             EMD a b = Some (Inr 0) \<longrightarrow> same_masses a b))"
proof (intro conjI impI)
  show "EMD a b = EMD b a"
    using EMD_swap [OF assms] by simp
next
  assume "emd_traversal (s_tree a) its"
  then have h: "BeginLevelorder (s_tree a) 0 = Some (Inr its)"
    and r: "links_resolve (s_tree a) (rev (tl its))"
    by (simp_all add: emd_traversal_def links_resolve_def)
  from h have ne: "t_links (s_tree a) \<noteq> []"
    by (auto simp: BeginLevelorder_def deref_def)
  have "for_each (emd_step (s_tree a) (signed_mass a a)) (rev (tl its)) (\<lambda>v. 0, 0) =
      Inr (\<lambda>v. 0, 0)"
    using r by (intro for_each_emd_no_mass) (simp_all add: signed_mass_self)
  with h ne show "EMD a a = Some (Inr 0)"
    by (simp add: EMD_def EMD_on_def)
next
  assume "emd_traversal (s_tree a) its" and same: "same_masses a b"
  then have h: "BeginLevelorder (s_tree a) 0 = Some (Inr its)"
    and r: "links_resolve (s_tree a) (rev (tl its))"
    by (simp_all add: emd_traversal_def links_resolve_def)
  from h have ne: "t_links (s_tree a) \<noteq> []"
    by (auto simp: BeginLevelorder_def deref_def)
  have "for_each (emd_step (s_tree a) (signed_mass a b)) (rev (tl its)) (\<lambda>v. 0, 0) =
      Inr (\<lambda>v. 0, 0)"
  proof (rule for_each_emd_no_mass [OF r])
    fix l e
    assume l: "l \<in> set (rev (tl its))" and e: "edge_at (s_tree a) l = Some e"
    from r l have "branch_length_at (s_tree a) l \<noteq> None"
      by (simp add: links_resolve_def list_all_iff)
    with e have "e < length (t_edges (s_tree a))"
      by (auto simp: branch_length_at_def edge_at_def deref_def split: if_splits)
    with same show "signed_mass a b e = 0"
      by (simp add: signed_mass_def same_masses_iff)
  qed
  with h ne show "EMD a b = Some (Inr 0)"
    by (simp add: EMD_def EMD_on_def)
next
  assume "emd_traversal (s_tree a) its"
    and z: "positive_branch_lengths (s_tree a) \<and> reaches_every_edge (s_tree a) its \<and>
            EMD a b = Some (Inr 0)"
  then have h: "BeginLevelorder (s_tree a) 0 = Some (Inr its)"
    by (simp add: emd_traversal_def)
  from h have ne: "t_links (s_tree a) \<noteq> []"
    by (auto simp: BeginLevelorder_def deref_def)
  from h z ne obtain bal' where run:
    "for_each (emd_step (s_tree a) (signed_mass a b)) (rev (tl its)) (\<lambda>v. 0, 0) = Inr (bal', 0)"
    by (auto simp: EMD_def EMD_on_def split: sum.splits)
  have pos: "0 < len" if "l \<in> set (rev (tl its))" "branch_length_at (s_tree a) l = Some len"
    for l len
    using that z
    by (auto simp: positive_branch_lengths_def list_all_length branch_length_at_def deref_def
        Option.bind_eq_Some_conv split: if_splits)
  show "same_masses a b"
    unfolding same_masses_iff
  proof (intro allI impI)
    fix e
    assume "e < length (t_edges (s_tree a))"
    with z have "Some e \<in> set (map (edge_at (s_tree a)) (tl its))"
      by (simp add: reaches_every_edge_def list_all_iff)
    then obtain l where l: "l \<in> set (rev (tl its))" "edge_at (s_tree a) l = Some e"
      by auto
    have "signed_mass a b e = 0"
      by (rule for_each_emd_zero [OF run pos l])
    then show "edge_mass a e = edge_mass b e"
      by (simp add: signed_mass_def)
  qed
qed

lemma edge_mass_sample_on: "edge_mass (sample_on t e) e' = (if e' = e then 1 else 0)"
  by (simp add: edge_mass_def pquery_mass_def normalized_ratio_def pquery_ratio_sum_def
      sample_on_def)

lemma star_tree_emd_traversal: "emd_traversal (star_tree a b c) [0, 3, 4, 5]"
  using star_tree_links_resolve [of a b c] by (simp add: emd_traversal_def star_tree_levelorder)

theorem EMD_symmetric_zero_witness:
  "same_topology (s_tree (sample_on (star_tree 2 3 5) 0)) (s_tree (sample_on (star_tree 2 3 5) 1)) \<and>
   same_branch_lengths (s_tree (sample_on (star_tree 2 3 5) 0))
     (s_tree (sample_on (star_tree 2 3 5) 1)) \<and>
   emd_traversal (s_tree (sample_on (star_tree 2 3 5) 0)) [0, 3, 4, 5] \<and>
   positive_branch_lengths (s_tree (sample_on (star_tree 2 3 5) 0)) \<and>
   reaches_every_edge (s_tree (sample_on (star_tree 2 3 5) 0)) [0, 3, 4, 5] \<and>
   EMD (sample_on (star_tree 2 3 5) 0) (sample_on (star_tree 2 3 5) 1) = Some (Inr 5) \<and>
   EMD (sample_on (star_tree 2 3 5) 1) (sample_on (star_tree 2 3 5) 0) = Some (Inr 5) \<and>
   EMD (sample_on (star_tree 2 3 5) 0) (sample_on (star_tree 2 3 5) 0) = Some (Inr 0) \<and>
   same_masses (sample_on (star_tree 2 3 5) 0)
     ((sample_on (star_tree 2 3 5) 0)\<lparr>s_metadata := [(''run'', ''2'')]\<rparr>) \<and>
   EMD (sample_on (star_tree 2 3 5) 0)
     ((sample_on (star_tree 2 3 5) 0)\<lparr>s_metadata := [(''run'', ''2'')]\<rparr>) = Some (Inr 0)"
proof -
  let ?t = "star_tree 2 3 5 :: real tree"
  let ?a = "sample_on ?t 0" and ?b = "sample_on ?t 1"
  let ?c = "(sample_on ?t 0)\<lparr>s_metadata := [(''run'', ''2'')]\<rparr>"
  have t: "s_tree ?a = ?t" "s_tree ?b = ?t" "s_tree ?c = ?t"
    by (simp_all add: sample_on_def)
  have top: "same_topology (s_tree ?a) (s_tree ?b)" "same_topology (s_tree ?a) (s_tree ?c)"
    and len: "same_branch_lengths (s_tree ?a) (s_tree ?b)"
      "same_branch_lengths (s_tree ?a) (s_tree ?c)"
    unfolding t by (simp_all add: same_topology_def same_branch_lengths_def)
  have tr: "emd_traversal (s_tree ?a) [0, 3, 4, 5]"
    unfolding t by (rule star_tree_emd_traversal)
  have pos: "positive_branch_lengths (s_tree ?a)"
    unfolding t by (simp add: positive_branch_lengths_def star_tree_def)
  have ev: "reaches_every_edge (s_tree ?a) [0, 3, 4, 5]"
    unfolding t by (simp add: reaches_every_edge_def star_tree_def edge_at_def deref_def
        upt_rec [of 0] upt_rec [of 1] upt_rec [of 2] upt_rec [of 3])
  have ab: "EMD ?a ?b = Some (Inr 5)"
    by code_simp
  have same: "same_masses ?a ?c"
    by (simp add: same_masses_iff edge_mass_def sample_on_def)
  from EMD_symmetric_zero [OF top(1) len(1), of "[0, 3, 4, 5]"] tr ab
  have "EMD ?b ?a = Some (Inr 5)" "EMD ?a ?a = Some (Inr 0)"
    by simp_all
  moreover from EMD_symmetric_zero [OF top(2) len(2), of "[0, 3, 4, 5]"] tr same
  have "EMD ?a ?c = Some (Inr 0)"
    by blast
  ultimately show ?thesis
    using top(1) len(1) tr pos ev ab same by blast
qed

text \<open>
  Claim C3, as it is stated, fails in the model in two ways. On the tree \<^verbatim>\<open>(A,B,C)R;\<close> with
  branch lengths 0, 0 and 5, whose traversal reaches every edge, a Sample with its query on
  the branch of \<^verbatim>\<open>A\<close> and a Sample with its query on the branch of \<^verbatim>\<open>B\<close> differ in the mass of
  edge 0 and have distance 0. And for the same two queries on two trees \<^verbatim>\<open>(A,B,C)R;\<close> of the
  same topology with branch lengths 2, 3, 5 and 1, 1, 1, the distance is 5 one way and 2 the
  other way, since the branch lengths are those of the first Sample; along the tree of the
  second Sample it is 2 one way and 5 the other way.
\<close>

theorem EMD_zero_for_different_masses:
  "same_topology (s_tree (sample_on (star_tree 0 0 5) 0)) (s_tree (sample_on (star_tree 0 0 5) 1)) \<and>
   emd_traversal (s_tree (sample_on (star_tree 0 0 5) 0)) [0, 3, 4, 5] \<and>
   reaches_every_edge (s_tree (sample_on (star_tree 0 0 5) 0)) [0, 3, 4, 5] \<and>
   edge_mass (sample_on (star_tree 0 0 5) 0) 0 = 1 \<and>
   edge_mass (sample_on (star_tree 0 0 5) 1) 0 = 0 \<and>
   EMD (sample_on (star_tree 0 0 5) 0) (sample_on (star_tree 0 0 5) 1) = Some (Inr 0) \<and>
   same_topology (s_tree (sample_on (star_tree 2 3 5) 0)) (s_tree (sample_on (star_tree 1 1 1) 1)) \<and>
   EMD (sample_on (star_tree 2 3 5) 0) (sample_on (star_tree 1 1 1) 1) = Some (Inr 5) \<and>
   EMD (sample_on (star_tree 1 1 1) 1) (sample_on (star_tree 2 3 5) 0) = Some (Inr 2) \<and>
   EMD_on (s_tree (sample_on (star_tree 1 1 1) 1))
     (sample_on (star_tree 2 3 5) 0) (sample_on (star_tree 1 1 1) 1) = Some (Inr 2) \<and>
   EMD_on (s_tree (sample_on (star_tree 2 3 5) 0))
     (sample_on (star_tree 1 1 1) 1) (sample_on (star_tree 2 3 5) 0) = Some (Inr 5)"
proof -
  have t: "s_tree (sample_on t e) = t" for t :: "real tree" and e
    by (simp add: sample_on_def)
  have top: "same_topology (star_tree a b c) (star_tree a' b' c')" for a b c a' b' c' :: real
    by (simp add: same_topology_def star_tree_def)
  have ev: "reaches_every_edge (star_tree 0 0 5 :: real tree) [0, 3, 4, 5]"
    by (simp add: reaches_every_edge_def star_tree_def edge_at_def deref_def
        upt_rec [of 0] upt_rec [of 1] upt_rec [of 2] upt_rec [of 3])
  have z: "EMD (sample_on (star_tree 0 0 5) 0) (sample_on (star_tree 0 0 5) 1) = Some (Inr 0)"
    by code_simp
  have f: "EMD (sample_on (star_tree 2 3 5) 0) (sample_on (star_tree 1 1 1) 1) = Some (Inr 5)"
    by code_simp
  have g: "EMD (sample_on (star_tree 1 1 1) 1) (sample_on (star_tree 2 3 5) 0) = Some (Inr 2)"
    by code_simp
  have f': "EMD_on (star_tree 1 1 1)
      (sample_on (star_tree 2 3 5) 0) (sample_on (star_tree 1 1 1) 1) = Some (Inr 2)"
    by code_simp
  have g': "EMD_on (star_tree 2 3 5)
      (sample_on (star_tree 1 1 1) 1) (sample_on (star_tree 2 3 5) 0) = Some (Inr 5)"
    by code_simp
  from z f g f' g' ev show ?thesis
    by (simp add: t top star_tree_emd_traversal edge_mass_sample_on)
qed

end
